theory Spec2Isabelle
  imports Complex_Main
begin

section \<open>Values of type float\<close>

text \<open>
  The program computes with C++ \<open>float\<close>, the binary32 format of IEEE 754. A value is
  a finite number or one of the three special values. Division by zero does not trap: it
  yields an infinity or NaN, and every comparison with NaN is false. The sign of a zero is
  not tracked: the only zero divisor the program can meet is the positive zero that
  \<open>maxTransfer\<close> starts from.
\<close>

datatype float = Fin rat | PInf | NInf | NaN

text \<open>
  Rounding. A finite float is \<open>m * 2 ^ (e - 23)\<close> with a mantissa \<open>m\<close> below
  \<open>2 ^ 24\<close> and an exponent \<open>e\<close> from -126 to 127. \<open>exponent a\<close> is the exponent of
  the binade that holds \<open>a \<ge> 0\<close>: the least \<open>e\<close> from -126 on with \<open>a < 2 ^ (e + 1)\<close>
  (128 when there is none). \<open>ulp a\<close> is the distance between neighbouring floats
  there, and \<open>fl x\<close> is \<open>x\<close> rounded to the nearest float, ties to the even mantissa,
  with gradual underflow below \<open>2 ^ -126\<close> and overflow to an infinity from \<open>2 ^ 128\<close>.
  Each operation and each conversion from an integer rounds its own result in this way
  (the default rounding mode, no excess precision, no fused multiply-add).
\<close>

fun exponent_from :: "nat \<Rightarrow> int \<Rightarrow> rat \<Rightarrow> int" where
  "exponent_from 0 e a = e"
| "exponent_from (Suc n) e a =
     (if a < 2 powi (e + 1) then e else exponent_from n (e + 1) a)"

definition exponent :: "rat \<Rightarrow> int" where
  "exponent a = exponent_from 254 (- 126) a"

definition ulp :: "rat \<Rightarrow> rat" where
  "ulp a = 2 powi (exponent a - 23)"

definition round_even :: "rat \<Rightarrow> int" where
  "round_even q =
     (let n = \<lfloor>q\<rfloor>; r = q - of_int n
      in if r < 1 / 2 then n
         else if 1 / 2 < r then n + 1
         else if even n then n else n + 1)"

definition fmag :: "rat \<Rightarrow> rat" where
  "fmag a = of_int (round_even (a / ulp a)) * ulp a"

definition fl :: "rat \<Rightarrow> float" where
  "fl x =
     (let y = fmag \<bar>x\<bar>
      in if 2 powi 128 \<le> y then (if 0 < x then PInf else NInf)
         else Fin (if x < 0 then - y else y))"

text \<open>Comparison and arithmetic. Every finite result is rounded.\<close>

fun fgt :: "float \<Rightarrow> float \<Rightarrow> bool" where
  "fgt (Fin x) (Fin y) = (y < x)"
| "fgt (Fin x) NInf = True"
| "fgt PInf (Fin y) = True"
| "fgt PInf NInf = True"
| "fgt _ _ = False"

fun fle :: "float \<Rightarrow> float \<Rightarrow> bool" where
  "fle (Fin x) (Fin y) = (x \<le> y)"
| "fle (Fin x) PInf = True"
| "fle NInf (Fin y) = True"
| "fle NInf NInf = True"
| "fle NInf PInf = True"
| "fle PInf PInf = True"
| "fle _ _ = False"

fun fneg :: "float \<Rightarrow> float" where
  "fneg (Fin x) = Fin (- x)"
| "fneg PInf = NInf"
| "fneg NInf = PInf"
| "fneg NaN = NaN"

fun fadd :: "float \<Rightarrow> float \<Rightarrow> float" where
  "fadd (Fin x) (Fin y) = fl (x + y)"
| "fadd (Fin x) PInf = PInf"
| "fadd (Fin x) NInf = NInf"
| "fadd PInf (Fin y) = PInf"
| "fadd NInf (Fin y) = NInf"
| "fadd PInf PInf = PInf"
| "fadd NInf NInf = NInf"
| "fadd _ _ = NaN"

definition fsub :: "float \<Rightarrow> float \<Rightarrow> float" where
  "fsub a b = fadd a (fneg b)"

fun fmul :: "float \<Rightarrow> float \<Rightarrow> float" where
  "fmul (Fin x) (Fin y) = fl (x * y)"
| "fmul (Fin x) PInf = (if x = 0 then NaN else if 0 < x then PInf else NInf)"
| "fmul (Fin x) NInf = (if x = 0 then NaN else if 0 < x then NInf else PInf)"
| "fmul PInf (Fin y) = (if y = 0 then NaN else if 0 < y then PInf else NInf)"
| "fmul NInf (Fin y) = (if y = 0 then NaN else if 0 < y then NInf else PInf)"
| "fmul PInf PInf = PInf"
| "fmul NInf NInf = PInf"
| "fmul PInf NInf = NInf"
| "fmul NInf PInf = NInf"
| "fmul _ _ = NaN"

fun fdiv :: "float \<Rightarrow> float \<Rightarrow> float" where
  "fdiv (Fin x) (Fin y) =
     (if y \<noteq> 0 then fl (x / y)
      else if x = 0 then NaN
      else if 0 < x then PInf
      else NInf)"
| "fdiv (Fin x) PInf = Fin 0"
| "fdiv (Fin x) NInf = Fin 0"
| "fdiv PInf (Fin y) = (if 0 \<le> y then PInf else NInf)"
| "fdiv NInf (Fin y) = (if 0 \<le> y then NInf else PInf)"
| "fdiv _ _ = NaN"

text \<open>Conversion of an \<open>int\<close> or a \<open>size_t\<close> operand to \<open>float\<close>.\<close>

definition float_of_int :: "int \<Rightarrow> float" where
  "float_of_int n = fl (of_int n)"

definition float_of_size :: "nat \<Rightarrow> float" where
  "float_of_size n = fl (of_nat n)"

section \<open>Connection\<close>

record Connection =
  conn_id :: string
  transferRate :: float

definition Connection_init :: "string \<Rightarrow> Connection" where
  "Connection_init id_arg = \<lparr>conn_id = id_arg, transferRate = Fin 0\<rparr>"

definition getRate :: "Connection \<Rightarrow> float" where
  "getRate c = transferRate c"

definition getId :: "Connection \<Rightarrow> string" where
  "getId c = conn_id c"

text \<open>
  \<open>simulateTransfer\<close> draws from \<open>std::uniform_real_distribution<float>(minRate, maxRate)\<close>
  on a generator that is static, hence shared by all connections and all calls. The
  distribution and the generator belong to the C++ standard library, so they are a
  parameter of the model: \<open>draw a b g\<close> is the value drawn for the bounds \<open>a\<close> and
  \<open>b\<close> from generator state \<open>g\<close>, with the generator state after the draw.
\<close>

type_synonym 'g distribution = "float \<Rightarrow> float \<Rightarrow> 'g \<Rightarrow> float \<times> 'g"

definition simulateTransfer ::
  "'g distribution \<Rightarrow> float \<Rightarrow> float \<Rightarrow> Connection \<times> 'g \<Rightarrow> Connection \<times> 'g" where
  "simulateTransfer draw lo hi s =
     (case s of (c, g) \<Rightarrow>
        (case draw lo hi g of (r, g') \<Rightarrow> (c\<lparr>transferRate := r\<rparr>, g')))"

text \<open>
  What the standard promises of a draw: a value between the two bounds. (The standard
  gives the half-open interval; the closed one is assumed here, which asks less of the
  library.)
\<close>

definition uniform_real_contract :: "'g distribution \<Rightarrow> float \<Rightarrow> float \<Rightarrow> bool" where
  "uniform_real_contract draw lo hi =
     (\<forall>g. fle lo (fst (draw lo hi g)) \<and> fle (fst (draw lo hi g)) hi)"

section \<open>The window\<close>

text \<open>
  The SFML window is a platform collaborator. Of its state the model keeps whether it is
  open, what has been drawn into the back buffer since it was last cleared, and the frame
  that \<open>display\<close> presented last.
\<close>

datatype Color = Black | Green | White

record RectangleShape =
  rectSize :: "float \<times> float"
  rectPosition :: "float \<times> float"
  rectFillColor :: Color

text \<open>
  The string of a label ends in the rate converted to \<open>int\<close>. C++ leaves that
  conversion undefined for a NaN, an infinity and a value outside the range of \<open>int\<close>;
  the string is \<open>None\<close> then.
\<close>

record Text =
  textString :: "string option"
  textFont :: string
  characterSize :: nat
  textPosition :: "float \<times> float"
  textFillColor :: Color

datatype Drawable = Bar RectangleShape | Label Text

record RenderWindow =
  isOpen :: bool
  cleared :: Color
  drawn :: "Drawable list"
  displayed :: "Color \<times> Drawable list"

datatype Event = Closed | OtherEvent

definition clear :: "Color \<Rightarrow> RenderWindow \<Rightarrow> RenderWindow" where
  "clear c w = w\<lparr>cleared := c, drawn := []\<rparr>"

definition draw_on :: "Drawable \<Rightarrow> RenderWindow \<Rightarrow> RenderWindow" where
  "draw_on d w = w\<lparr>drawn := drawn w @ [d]\<rparr>"

definition display :: "RenderWindow \<Rightarrow> RenderWindow" where
  "display w = w\<lparr>displayed := (cleared w, drawn w)\<rparr>"

definition close :: "RenderWindow \<Rightarrow> RenderWindow" where
  "close w = w\<lparr>isOpen := False\<rparr>"

section \<open>Decimal strings\<close>

fun digits :: "nat \<Rightarrow> string" where
  "digits n =
     (if n < 10 then [''0123456789'' ! n]
      else digits (n div 10) @ [''0123456789'' ! (n mod 10)])"

definition to_string :: "int \<Rightarrow> string" where
  "to_string i = (if i < 0 then CHR ''-'' # digits (nat (- i)) else digits (nat i))"

text \<open>\<open>static_cast<int>\<close> of a \<open>float\<close> truncates toward zero, where it is defined.\<close>

definition static_cast_int :: "float \<Rightarrow> int option" where
  "static_cast_int f =
     (case f of
        Fin x \<Rightarrow>
          (let t = (if 0 \<le> x then \<lfloor>x\<rfloor> else \<lceil>x\<rceil>)
           in if - (2 ^ 31) \<le> t \<and> t < 2 ^ 31 then Some t else None)
      | _ \<Rightarrow> None)"

section \<open>BandwidthMonitor\<close>

record BandwidthMonitor =
  connections :: "Connection list"
  window :: RenderWindow
  font :: string

definition width :: int where
  "width = 1600"

definition height :: int where
  "height = 1200"

definition minRate :: float where
  "minRate = Fin 1000"

definition maxRate :: float where
  "maxRate = Fin 5000"

definition fontPath :: string where
  "fontPath = ''/usr/share/fonts/truetype/dejavu/DejaVuSans-Bold.ttf''"

datatype error = runtime_error string

fun what :: "error \<Rightarrow> string" where
  "what (runtime_error msg) = msg"

text \<open>
  The constructor opens the window, creates the connections and loads the font.
  \<open>loadFromFile\<close> says which files the platform can load as a font; a failed load throws,
  which is the result \<open>Inl\<close>.
\<close>

definition BandwidthMonitor_init :: "(string \<Rightarrow> bool) \<Rightarrow> int \<Rightarrow> error + BandwidthMonitor" where
  "BandwidthMonitor_init loadFromFile numConnections =
     (let w = \<lparr>isOpen = True, cleared = Black, drawn = [], displayed = (Black, [])\<rparr>;
          conns = map (\<lambda>i. Connection_init (''Conn-'' @ to_string (int i + 1)))
                      [0 ..< nat numConnections]
      in if \<not> loadFromFile fontPath then Inl (runtime_error ''Font file not found.'')
         else Inr \<lparr>connections = conns, window = w, font = fontPath\<rparr>)"

text \<open>
  \<open>handleEvents\<close> polls the events that are pending when it is called; \<open>Closed\<close>
  closes the window. (After a \<open>close\<close> the remaining events cannot open it again, so
  reading them all gives the state the source ends in.)
\<close>

fun handleEvents :: "Event list \<Rightarrow> BandwidthMonitor \<Rightarrow> BandwidthMonitor" where
  "handleEvents [] m = m"
| "handleEvents (e # es) m =
     handleEvents es (if e = Closed then m\<lparr>window := close (window m)\<rparr> else m)"

text \<open>The loop of \<open>simulateAll\<close>, with the shared generator passed along.\<close>

fun simulateConns ::
  "'g distribution \<Rightarrow> Connection list \<Rightarrow> 'g \<Rightarrow> Connection list \<times> 'g" where
  "simulateConns draw [] g = ([], g)"
| "simulateConns draw (c # cs) g =
     (case simulateTransfer draw minRate maxRate (c, g) of (c', g') \<Rightarrow>
        (case simulateConns draw cs g' of (cs', g'') \<Rightarrow> (c' # cs', g'')))"

definition simulateAll ::
  "'g distribution \<Rightarrow> BandwidthMonitor \<times> 'g \<Rightarrow> BandwidthMonitor \<times> 'g" where
  "simulateAll draw s =
     (case s of (m, g) \<Rightarrow>
        (case simulateConns draw (connections m) g of (cs, g') \<Rightarrow>
           (m\<lparr>connections := cs\<rparr>, g')))"

text \<open>The first loop of \<open>drawAll\<close>: the largest rate, starting from 0.\<close>

definition maxTransferOf :: "Connection list \<Rightarrow> float" where
  "maxTransferOf cs =
     foldl (\<lambda>maxTransfer conn.
              if fgt (getRate conn) maxTransfer then getRate conn else maxTransfer)
           (Fin 0) cs"

definition barWidthOf :: "Connection list \<Rightarrow> float" where
  "barWidthOf cs = fdiv (float_of_int width) (fmul (float_of_size (length cs)) (Fin 2))"

text \<open>
  The body of the second loop, for index \<open>i\<close>: the bar and its label. The index is a
  \<open>size_t\<close>; \<open>i * 2\<close> cannot wrap, since a vector holds fewer than \<open>2 ^ 63\<close>
  connections.
\<close>

definition drawConn :: "string \<Rightarrow> Connection list \<Rightarrow> float \<Rightarrow> float \<Rightarrow> nat \<Rightarrow> Drawable list" where
  "drawConn fnt cs maxTransfer barWidth i =
     (let conn = cs ! i;
          heightRatio = fdiv (getRate conn) maxTransfer;
          barHeight = fmul heightRatio (float_of_int (height - 100));
          x = fadd (fmul (float_of_size (i * 2)) barWidth) (fdiv barWidth (float_of_int 2));
          y = fsub (float_of_int height) barHeight;
          bar = \<lparr>rectSize = (barWidth, barHeight), rectPosition = (x, y),
                 rectFillColor = Green\<rparr>;
          label = \<lparr>textString =
                     map_option (\<lambda>n. getId conn @ '': '' @ to_string n @ '' B/s'')
                                (static_cast_int (getRate conn)),
                   textFont = fnt, characterSize = 14,
                   textPosition = (x, fsub y (float_of_int 20)), textFillColor = White\<rparr>
      in [Bar bar, Label label])"

definition drawAll :: "BandwidthMonitor \<Rightarrow> BandwidthMonitor" where
  "drawAll m =
     (let w0 = clear Black (window m);
          maxTransfer = maxTransferOf (connections m);
          barWidth = barWidthOf (connections m);
          w1 = foldl (\<lambda>w i.
                        foldl (\<lambda>w' d. draw_on d w') w
                              (drawConn (font m) (connections m) maxTransfer barWidth i))
                     w0 [0 ..< length (connections m)]
      in m\<lparr>window := display w1\<rparr>)"

text \<open>
  One round of the loop of \<open>run\<close>, for the events pending at its start. The sleep of one
  second has no effect on the state.
\<close>

definition tick ::
  "'g distribution \<Rightarrow> Event list \<Rightarrow> BandwidthMonitor \<times> 'g \<Rightarrow> BandwidthMonitor \<times> 'g" where
  "tick draw evs s =
     (case simulateAll draw (handleEvents evs (fst s), snd s) of
        (m, g) \<Rightarrow> (drawAll m, g))"

text \<open>
  \<open>run\<close> loops while the window is open. Its input is the list of event batches, one
  for each round. A window that is still open when the batches are used up stays open for
  ever: the loop does not return, which is the result \<open>None\<close>.
\<close>

fun run ::
  "'g distribution \<Rightarrow> Event list list \<Rightarrow> BandwidthMonitor \<times> 'g \<Rightarrow> (BandwidthMonitor \<times> 'g) option" where
  "run draw [] s = (if isOpen (window (fst s)) then None else Some s)"
| "run draw (evs # rest) s =
     (if isOpen (window (fst s)) then run draw rest (tick draw evs s) else Some s)"

text \<open>
  \<open>main\<close>: the exit status and what was written to the error stream, or \<open>None\<close> when
  the program does not return.
\<close>

definition main ::
  "(string \<Rightarrow> bool) \<Rightarrow> 'g distribution \<Rightarrow> 'g \<Rightarrow> Event list list \<Rightarrow> (int \<times> string) option" where
  "main loadFromFile draw seed batches =
     (case BandwidthMonitor_init loadFromFile 5 of
        Inl e \<Rightarrow> Some (1, ''Error: '' @ what e @ [CHR 0x0A])
      | Inr monitor \<Rightarrow>
          (case run draw batches (monitor, seed) of
             None \<Rightarrow> None
           | Some s \<Rightarrow> Some (0, [])))"

text \<open>
  The drawables that one call of \<open>drawAll\<close> sends to the window, in order: for each
  index the bar, then its label.
\<close>

definition frameOf :: "string \<Rightarrow> Connection list \<Rightarrow> Drawable list" where
  "frameOf fnt cs = concat (map (drawConn fnt cs (maxTransferOf cs) (barWidthOf cs)) [0 ..< length cs])"

section \<open>Sample inputs\<close>

text \<open>
  A generator whose draws alternate between the two bounds, and a monitor holding given
  rates, for evaluating the definitions on concrete inputs.
\<close>

definition alternating :: "nat distribution" where
  "alternating lo hi g = (if even g then lo else hi, Suc g)"

definition snapshot :: "float list \<Rightarrow> BandwidthMonitor" where
  "snapshot rates =
     \<lparr>connections =
        map (\<lambda>i. \<lparr>conn_id = ''Conn-'' @ to_string (int i + 1), transferRate = rates ! i\<rparr>)
            [0 ..< length rates],
      window = \<lparr>isOpen = True, cleared = Black, drawn = [], displayed = (Black, [])\<rparr>,
      font = fontPath\<rparr>"

text \<open>The monitor that \<open>main\<close> constructs, before its first round.\<close>

definition monitor5 :: BandwidthMonitor where
  "monitor5 =
     \<lparr>connections =
        [\<lparr>conn_id = ''Conn-1'', transferRate = Fin 0\<rparr>,
         \<lparr>conn_id = ''Conn-2'', transferRate = Fin 0\<rparr>,
         \<lparr>conn_id = ''Conn-3'', transferRate = Fin 0\<rparr>,
         \<lparr>conn_id = ''Conn-4'', transferRate = Fin 0\<rparr>,
         \<lparr>conn_id = ''Conn-5'', transferRate = Fin 0\<rparr>],
      window = \<lparr>isOpen = True, cleared = Black, drawn = [], displayed = (Black, [])\<rparr>,
      font = ''/usr/share/fonts/truetype/dejavu/DejaVuSans-Bold.ttf''\<rparr>"

definition rates5 :: "float list" where
  "rates5 = [Fin 1000, Fin 5000, Fin 3000, Fin 2500, Fin 4000]"

text \<open>
  A monitor with \<open>2 ^ 26\<close> connections, all at the rate 1000.
\<close>

definition crowd :: BandwidthMonitor where
  "crowd = snapshot (replicate 67108864 (Fin 1000))"

section \<open>Rounding\<close>

lemma exponent_from_bounds:
  "e \<le> exponent_from n e a \<and> exponent_from n e a \<le> e + int n
   \<and> (exponent_from n e a < e + int n \<longrightarrow> a < 2 powi (exponent_from n e a + 1))
   \<and> (e < exponent_from n e a \<longrightarrow> 2 powi (exponent_from n e a) \<le> a)"
proof (induction n arbitrary: e)
  case 0
  show ?case by simp
next
  case (Suc n)
  show ?case
  proof (cases "a < 2 powi (e + 1)")
    case True
    then show ?thesis by simp
  next
    case False
    define r where "r = exponent_from n (e + 1) a"
    from Suc.IH [of "e + 1"] have ih: "e + 1 \<le> r" "r \<le> e + 1 + int n"
      "r < e + 1 + int n \<longrightarrow> a < 2 powi (r + 1)" "e + 1 < r \<longrightarrow> 2 powi r \<le> a"
      unfolding r_def by blast+
    have low: "2 powi r \<le> a"
    proof (cases "e + 1 < r")
      case True
      with ih(4) show ?thesis by blast
    next
      case False
      with ih(1) have "r = e + 1" by simp
      with \<open>\<not> a < 2 powi (e + 1)\<close> show ?thesis by simp
    qed
    have eq: "exponent_from (Suc n) e a = r" using False by (simp add: r_def)
    from ih low show ?thesis unfolding eq by simp
  qed
qed

lemma exponent_range: "- 126 \<le> exponent a \<and> exponent a \<le> 128"
  using exponent_from_bounds [of "- 126" 254 a] by (simp add: exponent_def)

lemma exponent_upper: "exponent a < 128 \<Longrightarrow> a < 2 powi (exponent a + 1)"
  using exponent_from_bounds [of "- 126" 254 a] by (simp add: exponent_def)

lemma exponent_lower: "- 126 < exponent a \<Longrightarrow> 2 powi (exponent a) \<le> a"
  using exponent_from_bounds [of "- 126" 254 a] by (simp add: exponent_def)

lemma powi_mono: "i \<le> j \<Longrightarrow> (2::rat) powi i \<le> 2 powi j"
  by (rule power_int_increasing) simp_all

lemma powi_pos: "0 < (2::rat) powi i"
  by simp

lemma powi_Suc: "(2::rat) powi (i + 1) = 2 * 2 powi i"
  by (simp add: power_int_add)

lemma exponent_eqI:
  assumes "- 126 \<le> e" and "e \<le> 127" and "e = - 126 \<or> 2 powi e \<le> a" and "a < 2 powi (e + 1)"
  shows "exponent a = e"
proof (rule antisym)
  show "exponent a \<le> e"
  proof (rule ccontr)
    assume "\<not> exponent a \<le> e"
    then have gt: "e + 1 \<le> exponent a" by simp
    with assms(1) have "- 126 < exponent a" by simp
    from exponent_lower [OF this] have "2 powi (exponent a) \<le> a" .
    moreover from gt have "(2::rat) powi (e + 1) \<le> 2 powi (exponent a)" by (rule powi_mono)
    ultimately show False using assms(4) by simp
  qed
next
  show "e \<le> exponent a"
  proof (rule ccontr)
    assume "\<not> e \<le> exponent a"
    then have lt: "exponent a + 1 \<le> e" by simp
    with assms(2) have "exponent a < 128" by simp
    from exponent_upper [OF this] have up: "a < 2 powi (exponent a + 1)" .
    from lt exponent_range [of a] have "e \<noteq> - 126" by simp
    with assms(3) have "2 powi e \<le> a" by simp
    moreover from lt have "(2::rat) powi (exponent a + 1) \<le> 2 powi e" by (rule powi_mono)
    ultimately show False using up by simp
  qed
qed

lemma exponent_mono:
  assumes "a \<le> b"
  shows "exponent a \<le> exponent b"
proof (rule ccontr)
  assume "\<not> exponent a \<le> exponent b"
  then have lt: "exponent b + 1 \<le> exponent a" by simp
  with exponent_range [of a] have "exponent b < 128" by simp
  from exponent_upper [OF this] have up: "b < 2 powi (exponent b + 1)" .
  from lt exponent_range [of b] have "- 126 < exponent a" by simp
  from exponent_lower [OF this] have "2 powi (exponent a) \<le> a" .
  moreover from lt have "(2::rat) powi (exponent b + 1) \<le> 2 powi (exponent a)" by (rule powi_mono)
  ultimately show False using up assms by simp
qed

lemma round_even_error:
  "\<bar>of_int (round_even q) - q\<bar> \<le> 1 / 2"
proof -
  have "of_int \<lfloor>q\<rfloor> \<le> q" and "q < of_int \<lfloor>q\<rfloor> + 1" by linarith+
  then show ?thesis by (auto simp: round_even_def Let_def)
qed

lemma round_even_int: "round_even (of_int n) = n"
  by (simp add: round_even_def)

lemma round_even_mono:
  assumes "p \<le> q"
  shows "round_even p \<le> round_even q"
proof (cases "\<lfloor>p\<rfloor> = \<lfloor>q\<rfloor>")
  case True
  with assms show ?thesis by (auto simp: round_even_def Let_def)
next
  case False
  with assms have "\<lfloor>p\<rfloor> + 1 \<le> \<lfloor>q\<rfloor>" using floor_mono [OF assms] by simp
  moreover have "round_even p \<le> \<lfloor>p\<rfloor> + 1" by (auto simp: round_even_def Let_def)
  moreover have "\<lfloor>q\<rfloor> \<le> round_even q" by (auto simp: round_even_def Let_def)
  ultimately show ?thesis by simp
qed

lemma round_even_near:
  assumes "of_int n \<le> q" and "q < of_int n + 1 / 2"
  shows "round_even q = n"
proof -
  from assms have "\<lfloor>q\<rfloor> = n" by linarith
  with assms show ?thesis by (simp add: round_even_def Let_def)
qed

lemma round_even_near_above:
  assumes "of_int n - 1 / 2 < q" and "q \<le> of_int n"
  shows "round_even q = n"
proof (cases "q = of_int n")
  case True
  then show ?thesis by (simp add: round_even_int)
next
  case False
  with assms have "\<lfloor>q\<rfloor> = n - 1" by linarith
  with assms show ?thesis by (simp add: round_even_def Let_def)
qed

lemma ulp_pos: "0 < ulp a"
  by (simp add: ulp_def)

lemma ulp_times: "of_int (2 ^ 23) * ulp a = 2 powi (exponent a)"
proof -
  have "(2::rat) powi (exponent a) = 2 powi (23 + (exponent a - 23))" by simp
  also have "\<dots> = 2 powi 23 * 2 powi (exponent a - 23)"
    by (subst power_int_add) simp_all
  finally show ?thesis by (simp add: ulp_def)
qed

lemma ulp_times': "of_int (2 ^ 24) * ulp a = 2 powi (exponent a + 1)"
proof -
  have "(2::rat) powi (exponent a + 1) = 2 * 2 powi (exponent a)" by (rule powi_Suc)
  also have "\<dots> = 2 * (of_int (2 ^ 23) * ulp a)" by (simp only: ulp_times)
  finally show ?thesis by simp
qed

lemma fmag_upper:
  assumes "0 \<le> a" and "exponent a < 128"
  shows "fmag a \<le> 2 powi (exponent a + 1)"
proof -
  from exponent_upper [OF assms(2)] have "a < of_int (2 ^ 24) * ulp a" by (simp only: ulp_times')
  then have "a / ulp a \<le> of_int (2 ^ 24)" using ulp_pos [of a] by (simp add: pos_divide_le_eq)
  then have "round_even (a / ulp a) \<le> round_even (of_int (2 ^ 24))" by (rule round_even_mono)
  then have "round_even (a / ulp a) \<le> 2 ^ 24" by (simp only: round_even_int)
  then have "(of_int (round_even (a / ulp a)) :: rat) \<le> of_int (2 ^ 24)" by (simp only: of_int_le_iff)
  then have "fmag a \<le> of_int (2 ^ 24) * ulp a"
    unfolding fmag_def using ulp_pos [of a] by (simp only: mult_le_cancel_right_pos)
  then show ?thesis by (simp only: ulp_times')
qed

lemma fmag_lower:
  assumes "- 126 < exponent a"
  shows "2 powi (exponent a) \<le> fmag a"
proof -
  from exponent_lower [OF assms] have "of_int (2 ^ 23) * ulp a \<le> a" by (simp only: ulp_times)
  then have "of_int (2 ^ 23) \<le> a / ulp a" using ulp_pos [of a] by (simp add: pos_le_divide_eq)
  then have "round_even (of_int (2 ^ 23)) \<le> round_even (a / ulp a)" by (rule round_even_mono)
  then have "2 ^ 23 \<le> round_even (a / ulp a)" by (simp only: round_even_int)
  then have "(of_int (2 ^ 23) :: rat) \<le> of_int (round_even (a / ulp a))" by (simp only: of_int_le_iff)
  then have "of_int (2 ^ 23) * ulp a \<le> fmag a"
    unfolding fmag_def using ulp_pos [of a] by (simp only: mult_le_cancel_right_pos)
  then show ?thesis by (simp only: ulp_times)
qed

lemma fmag_nonneg:
  assumes "0 \<le> a"
  shows "0 \<le> fmag a"
proof -
  from assms have "0 \<le> a / ulp a" using ulp_pos [of a] by simp
  then have "round_even (of_int 0) \<le> round_even (a / ulp a)" by (intro round_even_mono) simp
  then have "0 \<le> round_even (a / ulp a)" by (simp only: round_even_int)
  then show ?thesis unfolding fmag_def using ulp_pos [of a] by simp
qed

lemma fmag_mono:
  assumes "0 \<le> a" and "a \<le> b"
  shows "fmag a \<le> fmag b"
proof (cases "exponent a = exponent b")
  case True
  then have u: "ulp a = ulp b" by (simp add: ulp_def)
  from assms(2) have "a / ulp b \<le> b / ulp b" using ulp_pos [of b] by (simp add: divide_right_mono)
  then have "round_even (a / ulp b) \<le> round_even (b / ulp b)" by (rule round_even_mono)
  then show ?thesis unfolding fmag_def u using ulp_pos [of b] by simp
next
  case False
  with exponent_mono [OF assms(2)] have lt: "exponent a + 1 \<le> exponent b" by simp
  with exponent_range [of b] have "exponent a < 128" by simp
  from fmag_upper [OF assms(1) this] have "fmag a \<le> 2 powi (exponent a + 1)" .
  also from lt have "\<dots> \<le> 2 powi (exponent b)" by (rule powi_mono)
  also have "\<dots> \<le> fmag b"
  proof (rule fmag_lower)
    from lt exponent_range [of a] show "- 126 < exponent b" by simp
  qed
  finally show ?thesis .
qed

lemma fmag_exact:
  assumes "a = of_int m * ulp a"
  shows "fmag a = a"
proof -
  from assms have "a / ulp a = of_int m" using ulp_pos [of a] by (simp add: divide_eq_eq)
  then have "round_even (a / ulp a) = m" by (simp only: round_even_int)
  with assms show ?thesis by (simp add: fmag_def)
qed

lemma fmag_error:
  assumes "2 powi (- 126) \<le> a"
  shows "\<bar>fmag a - a\<bar> \<le> a / 2 ^ 24"
proof -
  have low: "2 powi (exponent a) \<le> a"
  proof (cases "- 126 < exponent a")
    case True
    then show ?thesis by (rule exponent_lower)
  next
    case False
    with exponent_range [of a] have "exponent a = - 126" by simp
    with assms show ?thesis by simp
  qed
  have "\<bar>of_int (round_even (a / ulp a)) - a / ulp a\<bar> \<le> 1 / 2" by (rule round_even_error)
  then have "\<bar>of_int (round_even (a / ulp a)) - a / ulp a\<bar> * ulp a \<le> 1 / 2 * ulp a"
    using ulp_pos [of a] by (simp only: mult_le_cancel_right_pos)
  moreover have "\<bar>of_int (round_even (a / ulp a)) - a / ulp a\<bar> * ulp a = \<bar>fmag a - a\<bar>"
  proof -
    have "\<bar>of_int (round_even (a / ulp a)) - a / ulp a\<bar> * ulp a
            = \<bar>(of_int (round_even (a / ulp a)) - a / ulp a) * ulp a\<bar>"
      using ulp_pos [of a] by (simp add: abs_mult)
    also have "(of_int (round_even (a / ulp a)) - a / ulp a) * ulp a = fmag a - a"
      using ulp_pos [of a] by (simp add: fmag_def algebra_simps)
    finally show ?thesis .
  qed
  ultimately have "\<bar>fmag a - a\<bar> \<le> 1 / 2 * ulp a" by simp
  also have "1 / 2 * ulp a = 2 powi (exponent a) / 2 ^ 24"
  proof -
    have "2 powi (exponent a) = of_int (2 ^ 23) * ulp a" by (simp only: ulp_times)
    then show ?thesis by simp
  qed
  also from low have "\<dots> \<le> a / 2 ^ 24" by (simp add: divide_right_mono)
  finally show ?thesis .
qed

lemma fl_nonneg:
  "0 \<le> x \<Longrightarrow> fl x = (if 2 powi 128 \<le> fmag x then PInf else Fin (fmag x))"
proof -
  assume x: "0 \<le> x"
  have z: "fmag 0 = 0" using fmag_exact [of 0 0] by simp
  show ?thesis
  proof (cases "x = 0")
    case True
    then show ?thesis by (simp add: fl_def z)
  next
    case False
    with x have "0 < x" by simp
    then show ?thesis by (simp add: fl_def Let_def)
  qed
qed

lemma fl_neg:
  "x < 0 \<Longrightarrow> fl x = (if 2 powi 128 \<le> fmag (- x) then NInf else Fin (- fmag (- x)))"
  by (simp add: fl_def Let_def)

lemma fl_mono:
  assumes "x \<le> y"
  shows "fle (fl x) (fl y)"
proof (cases "0 \<le> x")
  case True
  with assms have y: "0 \<le> y" by simp
  from fmag_mono [OF True assms] show ?thesis
    by (simp add: fl_nonneg [OF True] fl_nonneg [OF y])
next
  case False
  then have x: "x < 0" by simp
  show ?thesis
  proof (cases "0 \<le> y")
    case True
    from x have "0 \<le> fmag (- x)" by (intro fmag_nonneg) simp
    moreover from True have "0 \<le> fmag y" by (rule fmag_nonneg)
    ultimately show ?thesis by (simp add: fl_neg [OF x] fl_nonneg [OF True])
  next
    case False
    then have y: "y < 0" by simp
    from assms y have "fmag (- y) \<le> fmag (- x)" by (intro fmag_mono) simp_all
    then show ?thesis by (simp add: fl_neg [OF x] fl_neg [OF y])
  qed
qed

lemma exponent_pow24: "exponent (2 ^ 24) = 24"
  by (rule exponent_eqI) (simp_all add: power_int_def)

lemma fmag_nat_exact:
  assumes "n \<le> 2 ^ 24"
  shows "fmag (of_nat n) = of_nat n"
proof -
  define a :: rat where "a = of_nat n"
  from assms have "a \<le> 2 ^ 24" unfolding a_def
    by (metis of_nat_le_iff of_nat_numeral of_nat_power)
  from exponent_mono [OF this] have e: "exponent a \<le> 24" by (simp only: exponent_pow24)
  show ?thesis
  proof (cases "exponent a \<le> 23")
    case True
    define k where "k = nat (23 - exponent a)"
    have u: "ulp a = 1 / 2 ^ k"
    proof -
      from True have "exponent a - 23 = - int k" by (simp add: k_def)
      then have "ulp a = 2 powi (- int k)" by (simp add: ulp_def)
      also have "\<dots> = inverse (2 powi int k)" by (rule power_int_minus)
      also have "\<dots> = 1 / 2 ^ k" by (simp add: inverse_eq_divide)
      finally show ?thesis .
    qed
    have "a = of_int (int n * 2 ^ k) * ulp a" unfolding u by (simp add: a_def)
    from fmag_exact [OF this] show ?thesis by (simp add: a_def)
  next
    case False
    with e have e24: "exponent a = 24" by simp
    then have "2 powi 24 \<le> a" using exponent_lower [of a] by simp
    with \<open>a \<le> 2 ^ 24\<close> have a24: "a = 2 ^ 24" by (simp add: power_int_def)
    have u: "ulp a = 2" by (simp add: ulp_def e24)
    have "a = of_int (2 ^ 23) * ulp a" unfolding u by (simp add: a24)
    from fmag_exact [OF this] show ?thesis by (simp add: a_def)
  qed
qed

lemma fl_nat_exact:
  assumes "n \<le> 2 ^ 24"
  shows "fl (of_nat n) = Fin (of_nat n)"
proof -
  have "(of_nat n :: rat) \<le> 2 ^ 24" using assms
    by (metis of_nat_le_iff of_nat_numeral of_nat_power)
  also have "\<dots> < 2 powi 128" by (simp add: power_int_def)
  finally have "\<not> 2 powi 128 \<le> (of_nat n :: rat)" by simp
  then show ?thesis
    using fl_nonneg [of "of_nat n"] by (simp add: fmag_nat_exact [OF assms])
qed

lemma fl_near:
  assumes e: "- 126 \<le> e" "e \<le> 127"
    and m: "e = - 126 \<or> 2 ^ 23 \<le> m" "0 \<le> m" "m < 2 ^ 24"
    and lo: "of_int m * 2 powi (e - 23) \<le> x"
    and hi: "x < (of_int m + 1 / 2) * 2 powi (e - 23)"
  shows "fl x = Fin (of_int m * 2 powi (e - 23))"
proof -
  define u :: rat where "u = 2 powi (e - 23)"
  have upos: "0 < u" by (simp add: u_def)
  have u23: "of_int (2 ^ 23) * u = 2 powi e"
  proof -
    have "(2::rat) powi e = 2 powi (23 + (e - 23))" by simp
    also have "\<dots> = 2 powi 23 * 2 powi (e - 23)" by (subst power_int_add) simp_all
    finally show ?thesis by (simp add: u_def)
  qed
  have u24: "of_int (2 ^ 24) * u = 2 powi (e + 1)"
  proof -
    have "(2::rat) powi (e + 1) = 2 * 2 powi e" by (rule powi_Suc)
    also have "\<dots> = 2 * (of_int (2 ^ 23) * u)" by (simp only: u23)
    finally show ?thesis by simp
  qed
  from m(2) upos lo have x0: "0 \<le> x" unfolding u_def [symmetric]
    by (meson mult_nonneg_nonneg of_int_0_le_iff order_less_imp_le order_trans)
  have ex: "exponent x = e"
  proof (rule exponent_eqI [OF e])
    show "e = - 126 \<or> 2 powi e \<le> x"
    proof (cases "e = - 126")
      case True
      then show ?thesis by simp
    next
      case False
      with m(1) have "(of_int (2 ^ 23) :: rat) \<le> of_int m" by (simp only: of_int_le_iff) simp
      then have "of_int (2 ^ 23) * u \<le> of_int m * u"
        using upos by (simp only: mult_le_cancel_right_pos)
      then have "2 powi e \<le> of_int m * u" by (simp only: u23)
      also from lo have "\<dots> \<le> x" by (simp only: u_def)
      finally show ?thesis by simp
    qed
  next
    from m(3) have "m + 1 \<le> 2 ^ 24" by simp
    then have "(of_int (m + 1) :: rat) \<le> of_int (2 ^ 24)" by (simp only: of_int_le_iff)
    then have "(of_int m + 1 / 2 :: rat) \<le> of_int (2 ^ 24)" by simp
    then have le: "(of_int m + 1 / 2) * u \<le> of_int (2 ^ 24) * u"
      using upos by (simp only: mult_le_cancel_right_pos)
    from hi have "x < (of_int m + 1 / 2) * u" by (simp only: u_def)
    also note le
    also have "of_int (2 ^ 24) * u = 2 powi (e + 1)" by (rule u24)
    finally show "x < 2 powi (e + 1)" .
  qed
  then have ux: "ulp x = u" by (simp add: ulp_def u_def)
  from lo have "of_int m \<le> x / u" using upos unfolding u_def [symmetric]
    by (simp add: pos_le_divide_eq)
  moreover from hi have "x / u < of_int m + 1 / 2" using upos unfolding u_def [symmetric]
    by (simp add: pos_divide_less_eq)
  ultimately have "round_even (x / u) = m" by (rule round_even_near)
  then have fm: "fmag x = of_int m * u" by (simp add: fmag_def ux)
  have "of_int m * u < of_int (2 ^ 24) * u"
    using m(3) upos by (simp only: mult_less_cancel_right_pos of_int_less_iff)
  also have "\<dots> = 2 powi (e + 1)" by (rule u24)
  also from e(2) have "\<dots> \<le> 2 powi 128" by (intro powi_mono) simp
  finally have "\<not> 2 powi 128 \<le> fmag x" by (simp add: fm)
  then show ?thesis using fl_nonneg [OF x0] by (simp add: fm u_def)
qed

lemma fl_near_above:
  assumes e: "- 126 \<le> e" "e \<le> 127"
    and m: "2 ^ 23 < m" "m < 2 ^ 24"
    and lo: "(of_int m - 1 / 2) * 2 powi (e - 23) < x"
    and hi: "x \<le> of_int m * 2 powi (e - 23)"
  shows "fl x = Fin (of_int m * 2 powi (e - 23))"
proof -
  define u :: rat where "u = 2 powi (e - 23)"
  have upos: "0 < u" by (simp add: u_def)
  have u23: "of_int (2 ^ 23) * u = 2 powi e"
  proof -
    have "(2::rat) powi e = 2 powi (23 + (e - 23))" by simp
    also have "\<dots> = 2 powi 23 * 2 powi (e - 23)" by (subst power_int_add) simp_all
    finally show ?thesis by (simp add: u_def)
  qed
  have u24: "of_int (2 ^ 24) * u = 2 powi (e + 1)"
  proof -
    have "(2::rat) powi (e + 1) = 2 * 2 powi e" by (rule powi_Suc)
    also have "\<dots> = 2 * (of_int (2 ^ 23) * u)" by (simp only: u23)
    finally show ?thesis by simp
  qed
  from m(1) have "2 ^ 23 + 1 \<le> m" by simp
  then have "(of_int (2 ^ 23 + 1) :: rat) \<le> of_int m" by (simp only: of_int_le_iff)
  then have "(of_int (2 ^ 23) :: rat) \<le> of_int m - 1 / 2" by simp
  then have "of_int (2 ^ 23) * u \<le> (of_int m - 1 / 2) * u"
    using upos by (simp only: mult_le_cancel_right_pos)
  then have "2 powi e \<le> (of_int m - 1 / 2) * u" by (simp only: u23)
  also from lo have "\<dots> < x" by (simp only: u_def)
  finally have xlow: "2 powi e < x" .
  then have x0: "0 \<le> x" by (meson powi_pos order_less_imp_le order_less_trans)
  have mu: "of_int m * u < of_int (2 ^ 24) * u"
    using m(2) upos by (simp only: mult_less_cancel_right_pos of_int_less_iff)
  have ex: "exponent x = e"
  proof (rule exponent_eqI [OF e])
    from xlow show "e = - 126 \<or> 2 powi e \<le> x" by simp
  next
    from hi have "x \<le> of_int m * u" by (simp only: u_def)
    also note mu
    also have "of_int (2 ^ 24) * u = 2 powi (e + 1)" by (rule u24)
    finally show "x < 2 powi (e + 1)" .
  qed
  then have ux: "ulp x = u" by (simp add: ulp_def u_def)
  from lo have "of_int m - 1 / 2 < x / u" using upos unfolding u_def [symmetric]
    by (simp add: pos_less_divide_eq)
  moreover from hi have "x / u \<le> of_int m" using upos unfolding u_def [symmetric]
    by (simp add: pos_divide_le_eq)
  ultimately have "round_even (x / u) = m" by (rule round_even_near_above)
  then have fm: "fmag x = of_int m * u" by (simp add: fmag_def ux)
  note mu
  also have "of_int (2 ^ 24) * u = 2 powi (e + 1)" by (rule u24)
  also from e(2) have "\<dots> \<le> 2 powi 128" by (intro powi_mono) simp
  finally have "\<not> 2 powi 128 \<le> fmag x" by (simp add: fm)
  then show ?thesis using fl_nonneg [OF x0] by (simp add: fm u_def)
qed

lemma fl_error:
  assumes "2 powi (- 126) \<le> x" and "x < 2 powi 127"
  shows "\<exists>y. fl x = Fin y \<and> \<bar>y - x\<bar> \<le> x / 2 ^ 24"
proof -
  from assms(1) have x0: "0 \<le> x"
    by (meson order_trans powi_pos order_less_imp_le)
  from fmag_error [OF assms(1)] have err: "\<bar>fmag x - x\<bar> \<le> x / 2 ^ 24" .
  then have "fmag x \<le> x + x / 2 ^ 24" by linarith
  also from x0 have "\<dots> \<le> 2 * x" by simp
  also from assms(2) have "\<dots> < 2 * 2 powi 127" by simp
  also have "\<dots> = 2 powi 128" using powi_Suc [of 127] by simp
  finally have "\<not> 2 powi 128 \<le> fmag x" by simp
  with err show ?thesis using fl_nonneg [OF x0] by simp
qed

lemma fl_zero: "fl 0 = Fin 0"
  using fl_nat_exact [of 0] by simp

lemma fl_one: "fl 1 = Fin 1"
  using fl_nat_exact [of 1] by simp

lemma fl_numeral: "numeral k \<le> (16777216::nat) \<Longrightarrow> fl (numeral k) = Fin (numeral k)"
  using fl_nat_exact [of "numeral k"] by simp

lemma fl_nat_exact':
  "n \<le> 16777216 \<Longrightarrow> fl (of_nat n) = Fin (of_nat n)"
  using fl_nat_exact [of n] by simp

lemma float_of_int_exact:
  assumes "0 \<le> n" and "n \<le> 16777216"
  shows "float_of_int n = Fin (of_int n)"
proof -
  from assms have "nat n \<le> 2 ^ 24" by simp
  from fl_nat_exact [OF this] assms(1) show ?thesis by (simp add: float_of_int_def)
qed

lemma float_of_size_exact: "n \<le> 16777216 \<Longrightarrow> float_of_size n = Fin (of_nat n)"
  using fl_nat_exact [of n] by (simp add: float_of_size_def)

lemma fl_between:
  assumes "0 \<le> x" and "x \<le> of_nat n" and "n \<le> 16777216"
  shows "\<exists>y. fl x = Fin y \<and> 0 \<le> y \<and> y \<le> of_nat n"
proof -
  from assms(3) have n: "n \<le> 2 ^ 24" by simp
  from fl_mono [OF assms(1)] have lo: "fle (Fin 0) (fl x)" by (simp only: fl_zero)
  from fl_mono [OF assms(2)] have hi: "fle (fl x) (Fin (of_nat n))"
    by (simp only: fl_nat_exact [OF n])
  from lo hi show ?thesis by (cases "fl x") simp_all
qed

lemma fl_near_low:
  assumes "k \<le> 149" and "k = 149 \<or> 2 ^ 23 \<le> m" and "0 \<le> m" and "m < 2 ^ 24"
    and "of_int m / 2 ^ k \<le> x" and "x < (of_int m + 1 / 2) / 2 ^ k"
  shows "fl x = Fin (of_int m / 2 ^ k)"
proof -
  have u: "(2::rat) powi (23 - int k - 23) = 1 / 2 ^ k"
  proof -
    have "(2::rat) powi (23 - int k - 23) = 2 powi (- int k)" by simp
    also have "\<dots> = inverse (2 powi int k)" by (rule power_int_minus)
    also have "\<dots> = 1 / 2 ^ k" by (simp add: inverse_eq_divide)
    finally show ?thesis .
  qed
  from assms(1) have e: "- 126 \<le> 23 - int k" "23 - int k \<le> 127" by simp_all
  from assms(2) have m: "23 - int k = - 126 \<or> 2 ^ 23 \<le> m" by auto
  from assms(5) have lo: "of_int m * 2 powi (23 - int k - 23) \<le> x" by (simp only: u) simp
  from assms(6) have hi: "x < (of_int m + 1 / 2) * 2 powi (23 - int k - 23)"
    by (simp only: u) simp
  from fl_near [OF e m assms(3,4) lo hi] show ?thesis by (simp only: u) simp
qed

lemma fl_near_high:
  assumes "k \<le> 104" and "2 ^ 23 \<le> m" and "m < 2 ^ 24"
    and "of_int m * 2 ^ k \<le> x" and "x < (of_int m + 1 / 2) * 2 ^ k"
  shows "fl x = Fin (of_int m * 2 ^ k)"
proof -
  have u: "(2::rat) powi (23 + int k - 23) = 2 ^ k" by simp
  from assms(1) have e: "- 126 \<le> 23 + int k" "23 + int k \<le> 127" by simp_all
  from assms(2) have m: "23 + int k = - 126 \<or> 2 ^ 23 \<le> m" "0 \<le> m" by simp_all
  from assms(4) have lo: "of_int m * 2 powi (23 + int k - 23) \<le> x" by (simp only: u)
  from assms(5) have hi: "x < (of_int m + 1 / 2) * 2 powi (23 + int k - 23)" by (simp only: u)
  from fl_near [OF e m assms(3) lo hi] show ?thesis by (simp only: u)
qed

lemma fl_near_low_above:
  assumes "k \<le> 149" and "2 ^ 23 < m" and "m < 2 ^ 24"
    and "(of_int m - 1 / 2) / 2 ^ k < x" and "x \<le> of_int m / 2 ^ k"
  shows "fl x = Fin (of_int m / 2 ^ k)"
proof -
  have u: "(2::rat) powi (23 - int k - 23) = 1 / 2 ^ k"
  proof -
    have "(2::rat) powi (23 - int k - 23) = 2 powi (- int k)" by simp
    also have "\<dots> = inverse (2 powi int k)" by (rule power_int_minus)
    also have "\<dots> = 1 / 2 ^ k" by (simp add: inverse_eq_divide)
    finally show ?thesis .
  qed
  from assms(1) have e: "- 126 \<le> 23 - int k" "23 - int k \<le> 127" by simp_all
  from assms(4) have lo: "(of_int m - 1 / 2) * 2 powi (23 - int k - 23) < x"
    by (simp only: u) simp
  from assms(5) have hi: "x \<le> of_int m * 2 powi (23 - int k - 23)" by (simp only: u) simp
  from fl_near_above [OF e assms(2,3) lo hi] show ?thesis by (simp only: u) simp
qed

lemma fl_approx:
  assumes "x = 0 \<or> (1 / 1073741824 \<le> x \<and> x \<le> 1073741824)"
  shows "\<exists>y. fl x = Fin y \<and> x - x / 16777216 \<le> y \<and> y \<le> x + x / 16777216"
proof (cases "x = 0")
  case True
  then show ?thesis by (simp add: fl_zero)
next
  case False
  with assms have r: "1 / 1073741824 \<le> x" "x \<le> 1073741824" by simp_all
  have "(2::rat) powi (- 126) \<le> 1 / 1073741824" by (simp add: power_int_def field_simps)
  with r(1) have lo: "2 powi (- 126) \<le> x" by linarith
  have "(1073741824::rat) < 2 powi 127" by (simp add: power_int_def)
  with r(2) have hi: "x < 2 powi 127" by linarith
  from fl_error [OF lo hi] obtain y where y: "fl x = Fin y" "\<bar>y - x\<bar> \<le> x / 16777216" by auto
  from y(2) have "x - x / 16777216 \<le> y" and "y \<le> x + x / 16777216" by linarith+
  with y(1) show ?thesis by blast
qed

section \<open>Comparison of floats\<close>

lemma fle_refl: "a \<noteq> NaN \<Longrightarrow> fle a a"
  by (cases a) simp_all

lemma fle_trans: "fle a b \<Longrightarrow> fle b c \<Longrightarrow> fle a c"
  by (cases a; cases b; cases c) simp_all

lemma fgt_imp_fle: "fgt a b \<Longrightarrow> fle b a"
  by (cases a; cases b) simp_all

lemma not_fgt_imp_fle: "a \<noteq> NaN \<Longrightarrow> b \<noteq> NaN \<Longrightarrow> \<not> fgt a b \<Longrightarrow> fle a b"
  by (cases a; cases b) simp_all

lemma fle_not_NaN: "fle a b \<Longrightarrow> a \<noteq> NaN \<and> b \<noteq> NaN"
  by (cases a; cases b) simp_all

section \<open>The loop of simulateAll\<close>

lemma simulateConns_ids:
  "map conn_id (fst (simulateConns draw cs g)) = map conn_id cs"
proof (induction cs arbitrary: g)
  case Nil
  show ?case by simp
next
  case (Cons c cs)
  obtain r g' where d: "draw minRate maxRate g = (r, g')" by (cases "draw minRate maxRate g")
  obtain cs' g'' where rest: "simulateConns draw cs g' = (cs', g'')"
    by (cases "simulateConns draw cs g'")
  from Cons.IH [of g'] rest have "map conn_id cs' = map conn_id cs" by simp
  with d rest show ?case by (simp add: simulateTransfer_def)
qed

lemma simulateConns_length:
  "length (fst (simulateConns draw cs g)) = length cs"
  using simulateConns_ids [of draw cs g] by (metis length_map)

lemma simulateConns_range:
  assumes "uniform_real_contract draw minRate maxRate"
  shows "\<forall>c \<in> set (fst (simulateConns draw cs g)).
           fle minRate (getRate c) \<and> fle (getRate c) maxRate"
proof (induction cs arbitrary: g)
  case Nil
  show ?case by simp
next
  case (Cons c cs)
  obtain r g' where d: "draw minRate maxRate g = (r, g')" by (cases "draw minRate maxRate g")
  from assms have "fle minRate (fst (draw minRate maxRate g)) \<and> fle (fst (draw minRate maxRate g)) maxRate"
    unfolding uniform_real_contract_def by blast
  with d have r: "fle minRate r \<and> fle r maxRate" by simp
  obtain cs' g'' where rest: "simulateConns draw cs g' = (cs', g'')"
    by (cases "simulateConns draw cs g'")
  from Cons.IH [of g'] rest
  have "\<forall>c \<in> set cs'. fle minRate (getRate c) \<and> fle (getRate c) maxRate" by simp
  with r d rest show ?case
    by (simp add: simulateTransfer_def getRate_def)
qed

lemma simulateAll_connections:
  "connections (fst (simulateAll draw s)) = fst (simulateConns draw (connections (fst s)) (snd s))"
  by (simp add: simulateAll_def split: prod.splits)

section \<open>The loops of drawAll\<close>

lemma foldl_draw_on:
  "foldl (\<lambda>w' d. draw_on d w') w ds = w\<lparr>drawn := drawn w @ ds\<rparr>"
  by (induction ds arbitrary: w) (simp_all add: draw_on_def)

lemma foldl_draw_conns:
  "foldl (\<lambda>w i. foldl (\<lambda>w' d. draw_on d w') w (f i)) w is
     = w\<lparr>drawn := drawn w @ concat (map f is)\<rparr>"
  by (induction "is" arbitrary: w) (simp_all add: foldl_draw_on)

lemma drawAll_eq:
  "drawAll m = m\<lparr>window := (window m)\<lparr>cleared := Black,
        drawn := frameOf (font m) (connections m),
        displayed := (Black, frameOf (font m) (connections m))\<rparr>\<rparr>"
  by (simp add: drawAll_def Let_def foldl_draw_conns clear_def display_def frameOf_def)

lemma drawAll_connections: "connections (drawAll m) = connections m"
  by (simp add: drawAll_eq)

lemma drawAll_drawn:
  "drawn (window (drawAll m)) = frameOf (font m) (connections m)"
  by (simp add: drawAll_eq)

lemma concat_pairs_length:
  assumes "\<And>i. length (f i) = 2"
  shows "length (concat (map f [0 ..< n])) = 2 * n"
  by (induction n) (simp_all add: assms)

lemma concat_pairs_nth:
  assumes len: "\<And>i. length (f i) = 2" and "i < n"
  shows "concat (map f [0 ..< n]) ! (2 * i) = f i ! 0
       \<and> concat (map f [0 ..< n]) ! (2 * i + 1) = f i ! 1"
  using \<open>i < n\<close>
proof (induction n)
  case 0
  then show ?case by simp
next
  case (Suc n)
  have l: "length (concat (map f [0 ..< n])) = 2 * n" by (rule concat_pairs_length [OF len])
  show ?case
  proof (cases "i < n")
    case True
    with Suc.IH l show ?thesis by (simp add: nth_append)
  next
    case False
    with Suc.prems have "i = n" by simp
    with l show ?thesis by (simp add: nth_append)
  qed
qed

lemma drawConn_length: "length (drawConn fnt cs mx bw i) = 2"
  by (simp add: drawConn_def Let_def)

lemma frameOf_nth:
  "i < length cs \<Longrightarrow>
     frameOf fnt cs ! (2 * i) = drawConn fnt cs (maxTransferOf cs) (barWidthOf cs) i ! 0
   \<and> frameOf fnt cs ! (2 * i + 1) = drawConn fnt cs (maxTransferOf cs) (barWidthOf cs) i ! 1"
  unfolding frameOf_def by (rule concat_pairs_nth) (simp_all add: drawConn_length)

lemma drawAll_bar:
  assumes "i < length (connections m)"
  shows "drawn (window (drawAll m)) ! (2 * i) =
     Bar \<lparr>rectSize = (barWidthOf (connections m),
                      fmul (fdiv (getRate (connections m ! i)) (maxTransferOf (connections m)))
                           (float_of_int (height - 100))),
          rectPosition =
            (fadd (fmul (float_of_size (i * 2)) (barWidthOf (connections m)))
                  (fdiv (barWidthOf (connections m)) (float_of_int 2)),
             fsub (float_of_int height)
                  (fmul (fdiv (getRate (connections m ! i)) (maxTransferOf (connections m)))
                        (float_of_int (height - 100)))),
          rectFillColor = Green\<rparr>"
  using frameOf_nth [OF assms, of "font m"]
  by (simp add: drawAll_drawn drawConn_def Let_def)

lemma maxTransferOf_rates:
  "maxTransferOf cs = foldl (\<lambda>mx r. if fgt r mx then r else mx) (Fin 0) (map getRate cs)"
  by (simp add: maxTransferOf_def foldl_map)

lemma foldl_max_ge:
  assumes "acc \<noteq> NaN" and "\<forall>c \<in> set cs. getRate c \<noteq> NaN"
  shows "fle acc (foldl (\<lambda>maxTransfer conn.
              if fgt (getRate conn) maxTransfer then getRate conn else maxTransfer) acc cs)
       \<and> (\<forall>c \<in> set cs. fle (getRate c) (foldl (\<lambda>maxTransfer conn.
              if fgt (getRate conn) maxTransfer then getRate conn else maxTransfer) acc cs))"
  using assms
proof (induction cs arbitrary: acc)
  case Nil
  then show ?case by (simp add: fle_refl)
next
  case (Cons c cs)
  let ?step = "\<lambda>maxTransfer conn.
              if fgt (getRate conn) maxTransfer then getRate conn else maxTransfer"
  let ?acc' = "?step acc c"
  from Cons.prems have c: "getRate c \<noteq> NaN" and rest: "\<forall>c \<in> set cs. getRate c \<noteq> NaN"
    by simp_all
  from Cons.prems c have acc': "?acc' \<noteq> NaN" by simp
  from Cons.IH [OF acc' rest]
  have ih1: "fle ?acc' (foldl ?step ?acc' cs)"
    and ih2: "\<forall>c \<in> set cs. fle (getRate c) (foldl ?step ?acc' cs)" by blast+
  have a: "fle acc ?acc'"
    using Cons.prems(1) by (simp add: fgt_imp_fle fle_refl)
  have b: "fle (getRate c) ?acc'"
    using Cons.prems(1) c by (simp add: not_fgt_imp_fle fle_refl)
  from a b ih1 ih2 show ?case
    by (auto intro: fle_trans)
qed

lemma maxTransferOf_ge:
  assumes "\<forall>c \<in> set cs. getRate c \<noteq> NaN"
  shows "\<forall>c \<in> set cs. fle (getRate c) (maxTransferOf cs)"
  unfolding maxTransferOf_def using foldl_max_ge [OF _ assms, of "Fin 0"] by simp

lemma maxTransferOf_nonneg: 
  assumes "\<forall>c \<in> set cs. getRate c \<noteq> NaN"
  shows "fle (Fin 0) (maxTransferOf cs)"
  unfolding maxTransferOf_def using foldl_max_ge [OF _ assms, of "Fin 0"] by simp

lemma foldl_max_cases:
  "foldl (\<lambda>maxTransfer conn.
              if fgt (getRate conn) maxTransfer then getRate conn else maxTransfer) acc cs = acc
   \<or> foldl (\<lambda>maxTransfer conn.
              if fgt (getRate conn) maxTransfer then getRate conn else maxTransfer) acc cs
       \<in> getRate ` set cs"
proof (induction cs arbitrary: acc)
  case Nil
  show ?case by simp
next
  case (Cons c cs)
  let ?step = "\<lambda>maxTransfer conn.
              if fgt (getRate conn) maxTransfer then getRate conn else maxTransfer"
  from Cons.IH [of "?step acc c"] show ?case by auto
qed

lemma maxTransferOf_cases:
  "maxTransferOf cs = Fin 0 \<or> maxTransferOf cs \<in> getRate ` set cs"
  unfolding maxTransferOf_def by (rule foldl_max_cases)

lemma in_range_finite:
  assumes "fle minRate a \<and> fle a maxRate"
  shows "\<exists>r. a = Fin r \<and> 1000 \<le> r \<and> r \<le> 5000"
  using assms by (cases a) (simp_all add: minRate_def maxRate_def)

lemma maxTransferOf_in_range:
  assumes rng: "\<forall>c \<in> set cs. fle minRate (getRate c) \<and> fle (getRate c) maxRate"
    and i: "i < length cs"
  shows "\<exists>r mx. getRate (cs ! i) = Fin r \<and> maxTransferOf cs = Fin mx
           \<and> 1000 \<le> r \<and> r \<le> mx \<and> mx \<le> 5000"
proof -
  from i have mem: "cs ! i \<in> set cs" by simp
  with rng in_range_finite obtain r where r: "getRate (cs ! i) = Fin r" "1000 \<le> r" "r \<le> 5000"
    by blast
  have nn: "\<forall>c \<in> set cs. getRate c \<noteq> NaN" using rng fle_not_NaN by blast
  from maxTransferOf_ge [OF nn] mem have ge: "fle (Fin r) (maxTransferOf cs)"
    using r(1) by metis
  from maxTransferOf_cases [of cs] obtain mx where mx: "maxTransferOf cs = Fin mx" "mx \<le> 5000"
  proof
    assume "maxTransferOf cs = Fin 0"
    then show ?thesis using that by simp
  next
    assume "maxTransferOf cs \<in> getRate ` set cs"
    then obtain c where "c \<in> set cs" "maxTransferOf cs = getRate c" by auto
    with rng in_range_finite [of "getRate c"] show ?thesis using that by auto
  qed
  with ge r show ?thesis by simp
qed

lemma height_bounds:
  assumes "0 \<le> r" and "r \<le> mx" and "0 < mx"
  shows "\<exists>h. fmul (fdiv (Fin r) (Fin mx)) (float_of_int (height - 100)) = Fin h
           \<and> 0 \<le> h \<and> h \<le> of_int (height - 100)"
proof -
  from assms have "0 \<le> r / mx" and "r / mx \<le> of_nat 1" by simp_all
  from fl_between [OF this] obtain t where t: "fl (r / mx) = Fin t" "0 \<le> t" "t \<le> 1" by auto
  have H: "float_of_int 1100 = Fin 1100"
    using float_of_int_exact [of 1100] by simp
  from t have "0 \<le> t * 1100" and "t * 1100 \<le> of_nat 1100" by simp_all
  from fl_between [OF this] obtain h where "fl (t * 1100) = Fin h" "0 \<le> h" "h \<le> 1100" by auto
  with t assms(3) show ?thesis by (simp add: H height_def)
qed

lemma barWidth_approx:
  assumes "2 \<le> length cs" and "length cs \<le> 1048576"
  shows "\<exists>b. barWidthOf cs = Fin b \<and> 1 / 2048 \<le> b \<and> b \<le> 401"
proof -
  define D :: rat where "D = of_nat (length cs * 2)"
  from assms(2) have "length cs * 2 \<le> 16777216" by simp
  from fl_nat_exact' [OF this]
  have d: "fl (of_nat (length cs) * 2) = Fin D" by (simp add: D_def)
  from assms(1) have "4 \<le> length cs * 2" by simp
  then have "(of_nat 4 :: rat) \<le> of_nat (length cs * 2)" by (simp only: of_nat_le_iff)
  then have Dlo: "4 \<le> D" by (simp add: D_def)
  from assms(2) have "length cs * 2 \<le> 2097152" by simp
  then have "(of_nat (length cs * 2) :: rat) \<le> of_nat 2097152" by (simp only: of_nat_le_iff)
  then have Dhi: "D \<le> 2097152" by (simp add: D_def)
  define q :: rat where "q = 1600 / D"
  from Dlo have qhi: "q \<le> 400" unfolding q_def by (simp add: pos_divide_le_eq)
  from Dlo Dhi have qlo: "1 / 2048 < q" unfolding q_def by (simp add: pos_less_divide_eq)
  have "q = 0 \<or> (1 / 1073741824 \<le> q \<and> q \<le> 1073741824)" using qlo qhi by simp
  from fl_approx [OF this] obtain b
    where b: "fl q = Fin b" "q - q / 16777216 \<le> b" "b \<le> q + q / 16777216" by blast
  from Dlo have ne: "D \<noteq> 0" by simp
  have w: "float_of_int width = Fin 1600"
    using float_of_int_exact [of width] by (simp add: width_def)
  from assms(2) have s: "float_of_size (length cs) = Fin (of_nat (length cs))"
    by (intro float_of_size_exact) simp
  have "barWidthOf cs = Fin b"
    unfolding barWidthOf_def w s using d ne b(1) by (simp add: q_def)
  moreover have "1600 / 2097152 \<le> q" using Dlo Dhi unfolding q_def
    by (simp add: pos_le_divide_eq)
  with b(2) have "1 / 2048 \<le> b" by simp
  moreover from b(3) qhi have "b \<le> 401" by simp
  ultimately show ?thesis by blast
qed

lemma bar_x_approx:
  assumes b: "1 / 2048 \<le> b" "b \<le> 401" and k: "k \<le> 1048576"
  shows "\<exists>x. fadd (fmul (float_of_size (k * 2)) (Fin b)) (fdiv (Fin b) (float_of_int 2)) = Fin x
     \<and> (2 * (of_nat k * b) + b / 2) - (2 * (of_nat k * b) + b / 2) / 8388608 \<le> x
     \<and> x \<le> (2 * (of_nat k * b) + b / 2) + 3 * (2 * (of_nat k * b) + b / 2) / 16777216"
proof -
  define kb :: rat where "kb = of_nat k * b"
  from k have "(of_nat k :: rat) \<le> of_nat 1048576" by (simp only: of_nat_le_iff)
  then have k': "(of_nat k :: rat) \<le> 1048576" by simp
  from b have b0: "0 < b" by simp
  have kb0: "0 \<le> kb" unfolding kb_def using b0 by simp
  from k' b0 have "of_nat k * b \<le> 1048576 * b" by (simp only: mult_le_cancel_right_pos)
  then have kbhi: "kb \<le> 1048576 * b" by (simp only: kb_def)
  have kblo: "k = 0 \<or> b \<le> kb"
  proof (cases "k = 0")
    case True
    then show ?thesis by simp
  next
    case False
    then have "1 \<le> k" by simp
    then have "(of_nat 1 :: rat) \<le> of_nat k" by (simp only: of_nat_le_iff)
    then have "1 * b \<le> of_nat k * b" using b0 by (simp only: mult_le_cancel_right_pos of_nat_1)
    then show ?thesis by (simp add: kb_def)
  qed
  from k have "k * 2 \<le> 16777216" by simp
  then have c: "float_of_size (k * 2) = Fin (of_nat (k * 2))" by (rule float_of_size_exact)
  have two: "float_of_int 2 = Fin 2" using float_of_int_exact [of 2] by simp
  have t: "of_nat (k * 2) * b = 2 * kb" by (simp add: kb_def)
  have "2 * kb = 0 \<or> (1 / 1073741824 \<le> 2 * kb \<and> 2 * kb \<le> 1073741824)"
  proof (cases "k = 0")
    case True
    then show ?thesis by (simp add: kb_def)
  next
    case False
    with kblo have "b \<le> kb" by simp
    with b kbhi show ?thesis by simp
  qed
  from fl_approx [OF this] obtain p
    where p: "fl (2 * kb) = Fin p" "2 * kb - 2 * kb / 16777216 \<le> p" "p \<le> 2 * kb + 2 * kb / 16777216"
    by blast
  have "b / 2 = 0 \<or> (1 / 1073741824 \<le> b / 2 \<and> b / 2 \<le> 1073741824)" using b by simp
  from fl_approx [OF this] obtain h
    where h: "fl (b / 2) = Fin h" "b / 2 - b / 2 / 16777216 \<le> h" "h \<le> b / 2 + b / 2 / 16777216"
    by blast
  have "p + h = 0 \<or> (1 / 1073741824 \<le> p + h \<and> p + h \<le> 1073741824)"
  proof -
    from p(2) kb0 have "0 \<le> p" by simp
    moreover from h(2) b have "1 / 1073741824 \<le> h" by simp
    moreover from p(3) kbhi b have "p \<le> 1073741824 - 1000" by simp
    moreover from h(3) b have "h \<le> 1000" by simp
    ultimately show ?thesis by simp
  qed
  from fl_approx [OF this] obtain x
    where x: "fl (p + h) = Fin x" "p + h - (p + h) / 16777216 \<le> x" "x \<le> p + h + (p + h) / 16777216"
    by blast
  have mul: "fmul (Fin (of_nat (k * 2))) (Fin b) = Fin p" by (simp only: fmul.simps t p(1))
  have dv: "fdiv (Fin b) (Fin 2) = Fin h" by (simp add: h(1))
  have ad: "fadd (Fin p) (Fin h) = Fin x" by (simp add: x(1))
  have eq: "fadd (fmul (float_of_size (k * 2)) (Fin b)) (fdiv (Fin b) (float_of_int 2)) = Fin x"
    by (simp only: c two mul dv ad)
  from p(2) h(2) x(2) kb0 b0
  have lo: "(2 * kb + b / 2) - (2 * kb + b / 2) / 8388608 \<le> x" by (simp add: field_simps)
  from p(3) h(3) x(3) kb0 b0
  have hi: "x \<le> (2 * kb + b / 2) + 3 * (2 * kb + b / 2) / 16777216" by (simp add: field_simps)
  from eq lo hi show ?thesis unfolding kb_def by blast
qed

section \<open>The rounds of run\<close>

lemma handleEvents_connections: "connections (handleEvents evs m) = connections m"
  by (induction evs arbitrary: m) simp_all

lemma tick_connections:
  "connections (fst (tick draw evs s))
     = fst (simulateConns draw (connections (fst s)) (snd s))"
proof -
  obtain m g where sa: "simulateAll draw (handleEvents evs (fst s), snd s) = (m, g)"
    by (cases "simulateAll draw (handleEvents evs (fst s), snd s)")
  have "connections m = fst (simulateConns draw (connections (handleEvents evs (fst s))) (snd s))"
    using simulateAll_connections [of draw "(handleEvents evs (fst s), snd s)"] sa by simp
  with sa show ?thesis
    by (simp add: tick_def drawAll_connections handleEvents_connections)
qed

lemma tick_generator:
  "snd (tick draw evs s) = snd (simulateConns draw (connections (fst s)) (snd s))"
  by (simp add: tick_def simulateAll_def handleEvents_connections split: prod.splits)

lemma handleEvents_closed:
  "\<not> isOpen (window m) \<Longrightarrow> \<not> isOpen (window (handleEvents evs m))"
  by (induction evs arbitrary: m) (simp_all add: close_def)

lemma handleEvents_Closed:
  "Closed \<in> set evs \<Longrightarrow> \<not> isOpen (window (handleEvents evs m))"
proof (induction evs arbitrary: m)
  case Nil
  then show ?case by simp
next
  case (Cons e evs)
  show ?case
  proof (cases "e = Closed")
    case True
    then show ?thesis by (simp add: handleEvents_closed close_def)
  next
    case False
    with Cons show ?thesis by simp
  qed
qed

lemma tick_isOpen:
  "isOpen (window (fst (tick draw evs s))) = isOpen (window (handleEvents evs (fst s)))"
  by (simp add: tick_def simulateAll_def drawAll_eq split: prod.splits)

lemma run_closed: "\<not> isOpen (window (fst s)) \<Longrightarrow> run draw batches s = Some s"
  by (cases batches) simp_all

lemma run_returns:
  assumes "\<exists>evs \<in> set batches. Closed \<in> set evs"
  shows "\<exists>s'. run draw batches s = Some s' \<and> \<not> isOpen (window (fst s'))"
  using assms
proof (induction batches arbitrary: s)
  case Nil
  then show ?case by simp
next
  case (Cons evs rest)
  show ?case
  proof (cases "isOpen (window (fst s))")
    case False
    then show ?thesis by simp
  next
    case True
    show ?thesis
    proof (cases "Closed \<in> set evs")
      case c: True
      then have "\<not> isOpen (window (fst (tick draw evs s)))"
        by (simp add: tick_isOpen handleEvents_Closed)
      then have "run draw rest (tick draw evs s) = Some (tick draw evs s)"
        by (rule run_closed)
      with True \<open>\<not> isOpen (window (fst (tick draw evs s)))\<close> show ?thesis by simp
    next
      case False
      with Cons.prems have "\<exists>evs \<in> set rest. Closed \<in> set evs" by simp
      from Cons.IH [OF this, of "tick draw evs s"] True show ?thesis by simp
    qed
  qed
qed

lemma init_fails:
  "\<not> loadFromFile fontPath \<Longrightarrow>
     BandwidthMonitor_init loadFromFile n = Inl (runtime_error ''Font file not found.'')"
  by (simp add: BandwidthMonitor_init_def Let_def)

lemma init_succeeds:
  "loadFromFile fontPath \<Longrightarrow> \<exists>m. BandwidthMonitor_init loadFromFile n = Inr m"
  by (simp add: BandwidthMonitor_init_def Let_def)

lemma init_connections:
  assumes "BandwidthMonitor_init loadFromFile n = Inr m"
  shows "connections m
           = map (\<lambda>i. Connection_init (''Conn-'' @ to_string (int i + 1))) [0 ..< nat n]"
  using assms by (auto simp: BandwidthMonitor_init_def Let_def split: if_splits)

section \<open>The sample inputs\<close>

lemma alternating_contract: "uniform_real_contract alternating minRate maxRate"
  by (simp add: uniform_real_contract_def alternating_def minRate_def maxRate_def)

lemma snapshot3_connections:
  "connections (snapshot [a, b, c]) =
     [\<lparr>conn_id = ''Conn-1'', transferRate = a\<rparr>,
      \<lparr>conn_id = ''Conn-2'', transferRate = b\<rparr>,
      \<lparr>conn_id = ''Conn-3'', transferRate = c\<rparr>]"
  by (simp add: snapshot_def upt_rec to_string_def)

lemma snapshot_length: "length (connections (snapshot rates)) = length rates"
  by (simp add: snapshot_def)

lemma snapshot_rate:
  "i < length rates \<Longrightarrow> getRate (connections (snapshot rates) ! i) = rates ! i"
  by (simp add: snapshot_def getRate_def)

lemma snapshot_rates: "map getRate (connections (snapshot rates)) = rates"
  by (rule nth_equalityI) (simp_all add: snapshot_length snapshot_rate)

lemma maxTransferOf_rates5: "maxTransferOf (connections (snapshot rates5)) = Fin 5000"
  by (simp add: maxTransferOf_rates snapshot_rates rates5_def)

lemma fl_three_fifths: "fl (3 / 5) = Fin (5033165 / 8388608)"
  using fl_near_low_above [of 24 10066330 "3 / 5"] by simp

lemma fl_height_660: "fl (1384120375 / 2097152) = Fin 660"
  using fl_near_low [of 14 10813440 "1384120375 / 2097152"] by simp

lemma maxTransferOf_monitor5: "maxTransferOf (connections monitor5) = Fin 0"
  by (simp add: maxTransferOf_rates monitor5_def getRate_def)

lemma init5: "BandwidthMonitor_init (\<lambda>path. True) 5 = Inr monitor5"
  by (simp add: BandwidthMonitor_init_def monitor5_def Connection_init_def to_string_def
      fontPath_def upt_rec Let_def)

lemma run_sample:
  "run alternating [[OtherEvent], [OtherEvent, Closed], []] (monitor5, 0)
     = Some (tick alternating [OtherEvent, Closed] (tick alternating [OtherEvent] (monitor5, 0)))"
  by (simp add: tick_isOpen monitor5_def close_def)

lemma bar_sample1:
  "drawn (window (drawAll (snapshot rates5))) ! (2 * 1)
     = Bar \<lparr>rectSize = (Fin 160, Fin 1100), rectPosition = (Fin 400, Fin 100),
            rectFillColor = Green\<rparr>"
proof -
  have l: "(1::nat) < length (connections (snapshot rates5))"
    by (simp add: snapshot_length rates5_def)
  have r: "getRate (connections (snapshot rates5) ! 1) = Fin 5000"
    by (simp add: snapshot_rate rates5_def)
  have n: "length (connections (snapshot rates5)) = 5"
    by (simp add: snapshot_length rates5_def)
  show ?thesis
    unfolding drawAll_bar [OF l] r maxTransferOf_rates5 barWidthOf_def n
    by (simp add: float_of_int_def float_of_size_def width_def height_def fsub_def
        fl_numeral fl_one)
qed

lemma bar_sample2:
  "drawn (window (drawAll (snapshot rates5))) ! (2 * 2)
     = Bar \<lparr>rectSize = (Fin 160, Fin 660), rectPosition = (Fin 720, Fin 540),
            rectFillColor = Green\<rparr>"
proof -
  have l: "(2::nat) < length (connections (snapshot rates5))"
    by (simp add: snapshot_length rates5_def)
  have r: "getRate (connections (snapshot rates5) ! 2) = Fin 3000"
    by (simp add: snapshot_rate rates5_def)
  have n: "length (connections (snapshot rates5)) = 5"
    by (simp add: snapshot_length rates5_def)
  have h: "fmul (fdiv (Fin 3000) (Fin 5000)) (float_of_int (height - 100)) = Fin 660"
    by (simp add: height_def float_of_int_def fl_numeral fl_three_fifths fl_height_660)
  show ?thesis
    unfolding drawAll_bar [OF l] r maxTransferOf_rates5 barWidthOf_def n h
    by (simp add: float_of_int_def float_of_size_def width_def height_def fsub_def
        fl_numeral)
qed

lemma foldl_max_replicate:
  "foldl (\<lambda>mx r. if fgt r mx then r else mx) (Fin 1000) (replicate n (Fin 1000)) = Fin 1000"
  by (induction n) simp_all

lemma maxTransferOf_replicate:
  assumes "0 < n"
  shows "maxTransferOf (connections (snapshot (replicate n (Fin 1000)))) = Fin 1000"
proof -
  from assms obtain n' where n: "n = Suc n'" by (cases n) simp_all
  show ?thesis
    unfolding maxTransferOf_rates snapshot_rates n by (simp add: foldl_max_replicate)
qed

lemma crowd_length: "length (connections crowd) = 67108864"
  by (simp add: crowd_def snapshot_length)

lemma crowd_rate: "i < 67108864 \<Longrightarrow> getRate (connections crowd ! i) = Fin 1000"
  by (simp add: crowd_def snapshot_rate)

lemma crowd_maxTransfer: "maxTransferOf (connections crowd) = Fin 1000"
  unfolding crowd_def by (rule maxTransferOf_replicate) simp

lemma fl_67108864: "fl 67108864 = Fin 67108864"
  using fl_near_high [of 3 "2 ^ 23" 67108864] by simp

lemma fl_67108866: "fl 67108866 = Fin 67108864"
  using fl_near_high [of 3 "2 ^ 23" 67108866] by simp

lemma fl_134217728: "fl 134217728 = Fin 134217728"
  using fl_near_high [of 4 "2 ^ 23" 134217728] by simp

lemma fl_crowd_width: "fl (25 / 2097152) = Fin (25 / 2097152)"
  using fl_near_low [of 40 13107200 "25 / 2097152"] by simp

lemma fl_crowd_half: "fl (25 / 4194304) = Fin (25 / 4194304)"
  using fl_near_low [of 41 13107200 "25 / 4194304"] by simp

lemma fl_crowd_x: "fl (800 + 25 / 4194304) = Fin 800"
  using fl_near_low [of 14 13107200 "800 + 25 / 4194304"] by simp

lemma crowd_barWidth: "barWidthOf (connections crowd) = Fin (25 / 2097152)"
proof -
  have a: "float_of_size 67108864 = Fin 67108864"
    by (simp add: float_of_size_def fl_67108864)
  have b: "fmul (Fin 67108864) (Fin 2) = Fin 134217728" by (simp add: fl_134217728)
  have c: "float_of_int width = Fin 1600"
    using float_of_int_exact [of width] by (simp add: width_def)
  have d: "fdiv (Fin 1600) (Fin 134217728) = Fin (25 / 2097152)" by (simp add: fl_crowd_width)
  show ?thesis by (simp only: barWidthOf_def crowd_length a b c d)
qed

lemma crowd_x:
  assumes "float_of_size (k * 2) = Fin 67108864"
  shows "fadd (fmul (float_of_size (k * 2)) (Fin (25 / 2097152)))
              (fdiv (Fin (25 / 2097152)) (float_of_int 2)) = Fin 800"
proof -
  have a: "fmul (Fin 67108864) (Fin (25 / 2097152)) = Fin 800" by (simp add: fl_numeral)
  have two: "float_of_int 2 = Fin 2" using float_of_int_exact [of 2] by simp
  have b: "fdiv (Fin (25 / 2097152)) (Fin 2) = Fin (25 / 4194304)" by (simp add: fl_crowd_half)
  have c: "fadd (Fin 800) (Fin (25 / 4194304)) = Fin 800" by (simp only: fadd.simps fl_crowd_x)
  show ?thesis by (simp only: assms a two b c)
qed

lemma crowd_height:
  "fmul (fdiv (Fin 1000) (Fin 1000)) (float_of_int (height - 100)) = Fin 1100
   \<and> fsub (float_of_int height) (Fin 1100) = Fin 100"
proof -
  have H: "float_of_int 1100 = Fin 1100" using float_of_int_exact [of 1100] by simp
  have G: "float_of_int 1200 = Fin 1200" using float_of_int_exact [of 1200] by simp
  show ?thesis by (simp add: height_def H G fl_one fl_numeral fsub_def)
qed

lemma crowd_bar:
  assumes "k < 67108864" and "float_of_size (k * 2) = Fin 67108864"
  shows "drawn (window (drawAll crowd)) ! (2 * k)
     = Bar \<lparr>rectSize = (Fin (25 / 2097152), Fin 1100), rectPosition = (Fin 800, Fin 100),
            rectFillColor = Green\<rparr>"
proof -
  from assms(1) have l: "k < length (connections crowd)" by (simp add: crowd_length)
  show ?thesis
    unfolding drawAll_bar [OF l] crowd_rate [OF assms(1)] crowd_maxTransfer crowd_barWidth
      crowd_x [OF assms(2)]
    using crowd_height by simp
qed

section \<open>The rate invariant\<close>

text \<open>
  C1. After \<open>simulateAll\<close>, run from any state, every connection's rate lies between
  \<open>minRate\<close> and \<open>maxRate\<close> (1000 and 5000), provided the library's distribution
  keeps its promise; and the same holds after any number of rounds of the loop of
  \<open>run\<close>, once one round is done.
\<close>

theorem rates_in_range_after_every_tick:
  assumes "uniform_real_contract draw minRate maxRate"
  shows "(\<forall>c \<in> set (connections (fst (simulateAll draw s))).
            fle minRate (getRate c) \<and> fle (getRate c) maxRate)
       \<and> (\<forall>c \<in> set (connections (fst (fold (tick draw) (batches @ [evs]) s))).
            fle minRate (getRate c) \<and> fle (getRate c) maxRate)"
proof
  show "\<forall>c \<in> set (connections (fst (simulateAll draw s))).
            fle minRate (getRate c) \<and> fle (getRate c) maxRate"
    unfolding simulateAll_connections by (rule simulateConns_range [OF assms])
next
  have "fold (tick draw) (batches @ [evs]) s = tick draw evs (fold (tick draw) batches s)"
    by simp
  then show "\<forall>c \<in> set (connections (fst (fold (tick draw) (batches @ [evs]) s))).
            fle minRate (getRate c) \<and> fle (getRate c) maxRate"
    unfolding tick_connections by (simp add: simulateConns_range [OF assms] tick_connections)
qed

theorem rates_in_range_after_every_tick_witness:
  "uniform_real_contract alternating minRate maxRate
   \<and> map getRate (connections (fst (simulateAll alternating (snapshot [Fin 0, Fin 0, Fin 0], 0))))
       = [Fin 1000, Fin 5000, Fin 1000]
   \<and> list_all (\<lambda>c. fle minRate (getRate c) \<and> fle (getRate c) maxRate)
        (connections (fst (simulateAll alternating (snapshot [Fin 0, Fin 0, Fin 0], 0))))
   \<and> map getRate (connections
        (fst (fold (tick alternating) ([[]] @ [[OtherEvent]]) (snapshot [Fin 0, Fin 0, Fin 0], 0))))
       = [Fin 5000, Fin 1000, Fin 5000]
   \<and> list_all (\<lambda>c. fle minRate (getRate c) \<and> fle (getRate c) maxRate)
        (connections
          (fst (fold (tick alternating) ([[]] @ [[OtherEvent]]) (snapshot [Fin 0, Fin 0, Fin 0], 0))))"
proof -
  have a: "map getRate (connections (fst (simulateAll alternating (snapshot [Fin 0, Fin 0, Fin 0], 0))))
       = [Fin 1000, Fin 5000, Fin 1000]"
    by (simp add: simulateAll_connections snapshot3_connections simulateTransfer_def
        alternating_def getRate_def minRate_def maxRate_def)
  have b: "map getRate (connections
        (fst (fold (tick alternating) ([[]] @ [[OtherEvent]]) (snapshot [Fin 0, Fin 0, Fin 0], 0))))
       = [Fin 5000, Fin 1000, Fin 5000]"
    by (simp add: tick_connections tick_generator snapshot3_connections
        simulateTransfer_def alternating_def getRate_def minRate_def maxRate_def)
  from a b alternating_contract
    rates_in_range_after_every_tick [OF alternating_contract,
      of "(snapshot [Fin 0, Fin 0, Fin 0], 0)" "[[]]" "[OtherEvent]"]
  show ?thesis by (simp add: list_all_iff)
qed

section \<open>A divisor of zero\<close>

text \<open>
  C2, as the claim states it, fails: on the monitor that \<open>main\<close> constructs, where all
  rates are 0, the divisor is 0, \<open>drawAll\<close> divides by it, and the height of the first
  bar is NaN, not 0.
\<close>

theorem zero_divisor_counterexample:
  "fle (maxTransferOf (connections monitor5)) (Fin 0)
   \<and> drawn (window (drawAll monitor5)) ! (2 * 0)
       = Bar \<lparr>rectSize = (Fin 160, NaN), rectPosition = (Fin 80, NaN), rectFillColor = Green\<rparr>
   \<and> snd (rectSize \<lparr>rectSize = (Fin 160, NaN), rectPosition = (Fin 80, NaN),
                      rectFillColor = Green\<rparr>) \<noteq> Fin 0"
proof -
  have l: "0 < length (connections monitor5)" by (simp add: monitor5_def)
  have r: "getRate (connections monitor5 ! 0) = Fin 0" by (simp add: monitor5_def getRate_def)
  have n: "length (connections monitor5) = 5" by (simp add: monitor5_def)
  show ?thesis
    unfolding drawAll_bar [OF l] r maxTransferOf_monitor5 barWidthOf_def n
    by (simp add: float_of_int_def float_of_size_def width_def height_def fsub_def
        fl_numeral fl_zero)
qed

text \<open>
  C2, amended. For a snapshot of finite rates the divisor is finite and never negative.
  Where it is zero, \<open>drawAll\<close> does divide by zero: the height of a bar is NaN for a
  rate of 0 and minus infinity for a negative rate. Where it is positive, the height is
  the rounded product of the rounded quotient \<open>rate / maxTransfer\<close> and
  \<open>height - 100\<close>, and for a rate that is not negative it is finite and lies between 0
  and \<open>height - 100\<close>.
\<close>

theorem zero_divisor_divides:
  assumes "\<forall>c \<in> set (connections m). \<exists>r. getRate c = Fin r"
    and "i < length (connections m)"
  shows "\<exists>bar r mx. drawn (window (drawAll m)) ! (2 * i) = Bar bar
     \<and> getRate (connections m ! i) = Fin r
     \<and> maxTransferOf (connections m) = Fin mx
     \<and> 0 \<le> mx
     \<and> (mx = 0 \<longrightarrow> snd (rectSize bar) = (if r = 0 then NaN else NInf))
     \<and> (0 < mx \<longrightarrow> snd (rectSize bar) = fmul (fl (r / mx)) (float_of_int (height - 100)))
     \<and> (0 < mx \<and> 0 \<le> r \<longrightarrow>
          (\<exists>h. snd (rectSize bar) = Fin h \<and> 0 \<le> h \<and> h \<le> of_int (height - 100)))"
proof -
  from assms have "\<exists>r. getRate (connections m ! i) = Fin r" by simp
  then obtain r where r: "getRate (connections m ! i) = Fin r" by blast
  have nn: "\<forall>c \<in> set (connections m). getRate c \<noteq> NaN" using assms(1) by auto
  from maxTransferOf_cases [of "connections m"] assms(1)
  obtain mx where mx: "maxTransferOf (connections m) = Fin mx" by auto
  from maxTransferOf_nonneg [OF nn] mx have nonneg: "0 \<le> mx" by simp
  from maxTransferOf_ge [OF nn] assms(2) have "fle (getRate (connections m ! i)) (Fin mx)"
    using mx by (metis nth_mem)
  with r have le: "r \<le> mx" by simp
  have H: "float_of_int 1100 = Fin 1100"
    using float_of_int_exact [of 1100] by simp
  have zero: "fmul (fdiv (Fin r) (Fin mx)) (float_of_int (height - 100))
                = (if r = 0 then NaN else NInf)" if "mx = 0"
    using that le by (simp add: height_def H)
  have pos: "fmul (fdiv (Fin r) (Fin mx)) (float_of_int (height - 100))
                = fmul (fl (r / mx)) (float_of_int (height - 100))" if "0 < mx"
    using that by simp
  have fin: "\<exists>h. fmul (fdiv (Fin r) (Fin mx)) (float_of_int (height - 100)) = Fin h
               \<and> 0 \<le> h \<and> h \<le> of_int (height - 100)" if "0 < mx \<and> 0 \<le> r"
    using height_bounds [of r mx] that le by blast
  show ?thesis
    unfolding drawAll_bar [OF assms(2)] r mx using nonneg zero pos fin by simp
qed

theorem zero_divisor_divides_witness:
  "list_all (\<lambda>c. getRate c = Fin 0) (connections monitor5)
   \<and> (\<exists>bar. drawn (window (drawAll monitor5)) ! (2 * 3) = Bar bar \<and> snd (rectSize bar) = NaN)
   \<and> (\<exists>bar. drawn (window (drawAll (snapshot [Fin (- 5), Fin 0]))) ! (2 * 0) = Bar bar
         \<and> snd (rectSize bar) = NInf)
   \<and> (\<exists>bar. drawn (window (drawAll (snapshot rates5))) ! (2 * 2) = Bar bar
         \<and> snd (rectSize bar) = Fin 660 \<and> (0::rat) \<le> 660 \<and> (660::rat) \<le> of_int (height - 100))"
proof -
  have z: "list_all (\<lambda>c. getRate c = Fin 0) (connections monitor5)"
    by (simp add: monitor5_def getRate_def)
  then have f5: "\<forall>c \<in> set (connections monitor5). \<exists>r. getRate c = Fin r"
    by (simp add: list_all_iff)
  have l5: "3 < length (connections monitor5)" by (simp add: monitor5_def)
  have r5: "getRate (connections monitor5 ! 3) = Fin 0" by (simp add: monitor5_def getRate_def)
  have "list_all (\<lambda>a. \<exists>r. a = Fin r) (map getRate (connections (snapshot [Fin (- 5), Fin 0])))"
    unfolding snapshot_rates by simp
  then have fn: "\<forall>c \<in> set (connections (snapshot [Fin (- 5), Fin 0])). \<exists>r. getRate c = Fin r"
    by (simp add: list_all_iff)
  have ln: "0 < length (connections (snapshot [Fin (- 5), Fin 0]))"
    by (simp add: snapshot_length)
  have rn: "getRate (connections (snapshot [Fin (- 5), Fin 0]) ! 0) = Fin (- 5)"
    by (simp add: snapshot_rate)
  have mn: "maxTransferOf (connections (snapshot [Fin (- 5), Fin 0])) = Fin 0"
    by (simp add: maxTransferOf_rates snapshot_rates)
  have "list_all (\<lambda>a. \<exists>r. a = Fin r) (map getRate (connections (snapshot rates5)))"
    unfolding snapshot_rates by (simp add: rates5_def)
  then have fp: "\<forall>c \<in> set (connections (snapshot rates5)). \<exists>r. getRate c = Fin r"
    by (simp add: list_all_iff)
  have lp: "2 < length (connections (snapshot rates5))"
    by (simp add: snapshot_length rates5_def)
  from zero_divisor_divides [OF f5 l5] r5 maxTransferOf_monitor5
  have one: "\<exists>bar. drawn (window (drawAll monitor5)) ! (2 * 3) = Bar bar \<and> snd (rectSize bar) = NaN"
    by auto
  from zero_divisor_divides [OF fn ln] rn mn
  have two: "\<exists>bar. drawn (window (drawAll (snapshot [Fin (- 5), Fin 0]))) ! (2 * 0) = Bar bar
         \<and> snd (rectSize bar) = NInf"
    by auto
  from zero_divisor_divides [OF fp lp] bar_sample2
  have three: "\<exists>bar. drawn (window (drawAll (snapshot rates5))) ! (2 * 2) = Bar bar
         \<and> snd (rectSize bar) = Fin 660 \<and> (0::rat) \<le> 660 \<and> (660::rat) \<le> of_int (height - 100)"
    by (auto simp: height_def)
  from z one two three show ?thesis by blast
qed

section \<open>Geometry of the bars\<close>

text \<open>
  C3. For every index \<open>i\<close> of a snapshot of \<open>N\<close> connections, the drawable that
  \<open>drawAll\<close> draws for it is a bar whose width is \<open>width / (N * 2)\<close>, placed at
  \<open>x = i * 2 * barWidth + barWidth / 2\<close> and \<open>y = height - barHeight\<close>, each
  computed in \<open>float\<close> arithmetic. While \<open>N * 2\<close> is exact as a \<open>float\<close> (here for
  \<open>N\<close> up to \<open>2 ^ 23\<close>), the width is the quotient \<open>width / (2 * N)\<close> rounded once.
\<close>

theorem bar_geometry:
  assumes "i < length (connections m)"
  shows "\<exists>bar. drawn (window (drawAll m)) ! (2 * i) = Bar bar
     \<and> fst (rectSize bar)
         = fdiv (float_of_int width) (fmul (float_of_size (length (connections m))) (Fin 2))
     \<and> fst (rectPosition bar)
         = fadd (fmul (float_of_size (i * 2)) (fst (rectSize bar)))
                (fdiv (fst (rectSize bar)) (float_of_int 2))
     \<and> snd (rectPosition bar) = fsub (float_of_int height) (snd (rectSize bar))
     \<and> (length (connections m) \<le> 8388608 \<longrightarrow>
          fst (rectSize bar) = fl (of_int width / (2 * of_nat (length (connections m)))))"
proof -
  have "barWidthOf (connections m) = fl (of_int width / (2 * of_nat (length (connections m))))"
    if n: "length (connections m) \<le> 8388608"
  proof -
    from assms have pos: "0 < length (connections m)" by auto
    from n have "length (connections m) * 2 \<le> 2 ^ 24" by simp
    from fl_nat_exact [OF this]
    have "fl (of_nat (length (connections m)) * 2) = Fin (of_nat (length (connections m)) * 2)"
      by simp
    with pos n show ?thesis
      by (simp add: barWidthOf_def float_of_size_exact float_of_int_exact width_def
          mult.commute)
  qed
  then show ?thesis
    unfolding drawAll_bar [OF assms] by (simp add: barWidthOf_def)
qed

theorem bar_geometry_witness:
  "(2::nat) < length (connections (snapshot rates5))
   \<and> length (connections (snapshot rates5)) \<le> 8388608
   \<and> drawn (window (drawAll (snapshot rates5))) ! (2 * 2)
       = Bar \<lparr>rectSize = (Fin 160, Fin 660), rectPosition = (Fin 720, Fin 540),
              rectFillColor = Green\<rparr>
   \<and> fdiv (float_of_int width) (fmul (float_of_size (length (connections (snapshot rates5)))) (Fin 2))
       = Fin 160
   \<and> fadd (fmul (float_of_size (2 * 2)) (Fin 160)) (fdiv (Fin 160) (float_of_int 2)) = Fin 720
   \<and> fsub (float_of_int height) (Fin 660) = Fin 540
   \<and> fl (of_int width / (2 * of_nat (length (connections (snapshot rates5))))) = Fin 160"
proof -
  have l: "(2::nat) < length (connections (snapshot rates5))"
    by (simp add: snapshot_length rates5_def)
  have n: "length (connections (snapshot rates5)) \<le> 8388608"
    by (simp add: snapshot_length rates5_def)
  from bar_geometry [OF l] bar_sample2 l n show ?thesis by auto
qed

text \<open>
  C4. When every rate of the snapshot lies between \<open>minRate\<close> and \<open>maxRate\<close>,
  the height of every bar, \<open>rate / maxTransfer * (height - 100)\<close> in \<open>float\<close>
  arithmetic, is a finite value between 0 and \<open>height - 100\<close>.
\<close>

theorem bar_height_bounds:
  assumes "\<forall>c \<in> set (connections m). fle minRate (getRate c) \<and> fle (getRate c) maxRate"
    and "i < length (connections m)"
  shows "\<exists>bar h. drawn (window (drawAll m)) ! (2 * i) = Bar bar
     \<and> snd (rectSize bar)
         = fmul (fdiv (getRate (connections m ! i)) (maxTransferOf (connections m)))
                (float_of_int (height - 100))
     \<and> snd (rectSize bar) = Fin h
     \<and> 0 \<le> h \<and> h \<le> of_int (height - 100)"
proof -
  from maxTransferOf_in_range [OF assms] obtain r mx
    where r: "getRate (connections m ! i) = Fin r"
      and mx: "maxTransferOf (connections m) = Fin mx"
      and b: "1000 \<le> r" "r \<le> mx" "mx \<le> 5000" by blast
  from b have "0 \<le> r" and "0 < mx" by simp_all
  from height_bounds [OF this(1) b(2) this(2)] obtain h
    where h: "fmul (fdiv (Fin r) (Fin mx)) (float_of_int (height - 100)) = Fin h"
      "0 \<le> h" "h \<le> of_int (height - 100)" by blast
  show ?thesis
    unfolding drawAll_bar [OF assms(2)] r mx using h by simp
qed

theorem bar_height_bounds_witness:
  "list_all (\<lambda>c. fle minRate (getRate c) \<and> fle (getRate c) maxRate) (connections (snapshot rates5))
   \<and> (2::nat) < length (connections (snapshot rates5))
   \<and> drawn (window (drawAll (snapshot rates5))) ! (2 * 2)
       = Bar \<lparr>rectSize = (Fin 160, Fin 660), rectPosition = (Fin 720, Fin 540),
              rectFillColor = Green\<rparr>
   \<and> fmul (fdiv (getRate (connections (snapshot rates5) ! 2))
                   (maxTransferOf (connections (snapshot rates5))))
            (float_of_int (height - 100)) = Fin 660
   \<and> (0::rat) \<le> 660 \<and> (660::rat) \<le> of_int (height - 100)"
proof -
  have l: "(2::nat) < length (connections (snapshot rates5))"
    by (simp add: snapshot_length rates5_def)
  have "list_all (\<lambda>r. fle minRate r \<and> fle r maxRate) (map getRate (connections (snapshot rates5)))"
    unfolding snapshot_rates by (simp add: rates5_def minRate_def maxRate_def)
  then have a: "list_all (\<lambda>c. fle minRate (getRate c) \<and> fle (getRate c) maxRate)
       (connections (snapshot rates5))"
    by (simp add: list_all_iff)
  then have a': "\<forall>c \<in> set (connections (snapshot rates5)).
       fle minRate (getRate c) \<and> fle (getRate c) maxRate"
    by (simp add: list_all_iff)
  from bar_height_bounds [OF a' l] bar_sample2 a l show ?thesis
    by (auto simp: height_def)
qed

section \<open>The normalisation maximum\<close>

text \<open>
  C5. In every round, the maximum that \<open>drawAll\<close> computes (the fold that starts at 0)
  over the rates that \<open>simulateAll\<close> has just drawn is greater than or equal to the rate
  of every connection of that snapshot.
\<close>

theorem maxTransfer_bounds_every_rate:
  assumes "uniform_real_contract draw minRate maxRate"
  shows "\<forall>c \<in> set (connections (fst (simulateAll draw s))).
           fle (getRate c) (maxTransferOf (connections (fst (simulateAll draw s))))"
proof (rule maxTransferOf_ge)
  show "\<forall>c \<in> set (connections (fst (simulateAll draw s))). getRate c \<noteq> NaN"
    using simulateConns_range [OF assms] fle_not_NaN
    unfolding simulateAll_connections by blast
qed

theorem maxTransfer_bounds_every_rate_witness:
  "uniform_real_contract alternating minRate maxRate
   \<and> maxTransferOf (connections (fst (simulateAll alternating (snapshot [Fin 0, Fin 0, Fin 0], 0))))
       = Fin 5000
   \<and> list_all (\<lambda>c. fle (getRate c) (Fin 5000))
        (connections (fst (simulateAll alternating (snapshot [Fin 0, Fin 0, Fin 0], 0))))"
proof -
  have m: "maxTransferOf (connections (fst (simulateAll alternating (snapshot [Fin 0, Fin 0, Fin 0], 0))))
       = Fin 5000"
    by (simp add: maxTransferOf_def simulateAll_connections snapshot3_connections simulateTransfer_def
        alternating_def getRate_def minRate_def maxRate_def)
  from m alternating_contract
    maxTransfer_bounds_every_rate [OF alternating_contract, of "(snapshot [Fin 0, Fin 0, Fin 0], 0)"]
  show ?thesis by (simp add: list_all_iff)
qed

section \<open>Order of the bars\<close>

text \<open>
  C6, as the claim states it for every number of connections, fails: with \<open>2 ^ 26\<close>
  connections the index \<open>33554433\<close>, doubled, is not a \<open>float\<close> and rounds to the double
  of \<open>33554432\<close>; the two neighbouring bars are drawn at the same place, \<open>x = 800\<close>.
\<close>

theorem bars_coincide_counterexample:
  "(33554432::nat) < 33554433 \<and> 33554433 < length (connections crowd)
   \<and> drawn (window (drawAll crowd)) ! (2 * 33554432)
       = Bar \<lparr>rectSize = (Fin (25 / 2097152), Fin 1100), rectPosition = (Fin 800, Fin 100),
              rectFillColor = Green\<rparr>
   \<and> drawn (window (drawAll crowd)) ! (2 * 33554433)
       = Bar \<lparr>rectSize = (Fin (25 / 2097152), Fin 1100), rectPosition = (Fin 800, Fin 100),
              rectFillColor = Green\<rparr>
   \<and> \<not> fgt (Fin 800) (Fin 800)"
proof -
  have a: "float_of_size (33554432 * 2) = Fin 67108864"
    by (simp add: float_of_size_def fl_67108864)
  have b: "float_of_size (33554433 * 2) = Fin 67108864"
    by (simp add: float_of_size_def fl_67108866)
  have i: "(33554432::nat) < 67108864" and j: "(33554433::nat) < 67108864" by simp_all
  from crowd_bar [OF i a] crowd_bar [OF j b] show ?thesis by (simp add: crowd_length)
qed

text \<open>
  C6, amended. For a snapshot of at most \<open>2 ^ 20\<close> connections the bars are strictly
  increasing in \<open>x\<close> with the index and do not overlap: for indices \<open>i < j\<close>, \<open>x\<close> of
  bar \<open>i\<close> is less than \<open>x\<close> of bar \<open>j\<close>, and the right edge of bar \<open>i\<close> (its
  \<open>x\<close> plus the bar width) is at most the left edge of bar \<open>j\<close>; consecutive bars are
  the case \<open>j = i + 1\<close>.
\<close>

theorem bars_increasing_and_disjoint:
  assumes "i < j" and "j < length (connections m)" and "length (connections m) \<le> 1048576"
  shows "\<exists>bar_i bar_j x_i x_j w. drawn (window (drawAll m)) ! (2 * i) = Bar bar_i
     \<and> drawn (window (drawAll m)) ! (2 * j) = Bar bar_j
     \<and> fst (rectPosition bar_i) = Fin x_i
     \<and> fst (rectPosition bar_j) = Fin x_j
     \<and> fst (rectSize bar_i) = Fin w
     \<and> 0 < w \<and> x_i < x_j \<and> x_i + w \<le> x_j"
proof -
  from assms have i: "i < length (connections m)" by simp
  from assms have n: "2 \<le> length (connections m)" by simp
  from barWidth_approx [OF n assms(3)] obtain b
    where b: "barWidthOf (connections m) = Fin b" "1 / 2048 \<le> b" "b \<le> 401" by blast
  from assms have ki: "i \<le> 1048576" and kj: "j \<le> 1048576" by simp_all
  from bar_x_approx [OF b(2,3) ki] obtain x_i
    where xi: "fadd (fmul (float_of_size (i * 2)) (Fin b)) (fdiv (Fin b) (float_of_int 2)) = Fin x_i"
      "x_i \<le> (2 * (of_nat i * b) + b / 2) + 3 * (2 * (of_nat i * b) + b / 2) / 16777216"
    by blast
  from bar_x_approx [OF b(2,3) kj] obtain x_j
    where xj: "fadd (fmul (float_of_size (j * 2)) (Fin b)) (fdiv (Fin b) (float_of_int 2)) = Fin x_j"
      "(2 * (of_nat j * b) + b / 2) - (2 * (of_nat j * b) + b / 2) / 8388608 \<le> x_j"
    by blast
  from b have b0: "0 < b" by simp
  define ib :: rat where "ib = of_nat i * b"
  define jb :: rat where "jb = of_nat j * b"
  have ib0: "0 \<le> ib" unfolding ib_def using b0 by simp
  from assms(1) have "Suc i \<le> j" by simp
  then have "(of_nat (Suc i) :: rat) \<le> of_nat j" by (simp only: of_nat_le_iff)
  then have "of_nat (Suc i) * b \<le> of_nat j * b" using b0 by (simp only: mult_le_cancel_right_pos)
  then have step: "ib + b \<le> jb" by (simp add: ib_def jb_def algebra_simps)
  from kj have "(of_nat j :: rat) \<le> of_nat 1048576" by (simp only: of_nat_le_iff)
  then have "of_nat j * b \<le> of_nat 1048576 * b" using b0 by (simp only: mult_le_cancel_right_pos)
  then have jbhi: "jb \<le> 1048576 * b" by (simp add: jb_def)
  from xi(2) have xi': "x_i \<le> (2 * ib + b / 2) + 3 * (2 * ib + b / 2) / 16777216"
    by (simp only: ib_def)
  from xj(2) have xj': "(2 * jb + b / 2) - (2 * jb + b / 2) / 8388608 \<le> x_j"
    by (simp only: jb_def)
  from xi' xj' step jbhi ib0 b0 have gap: "x_i + b \<le> x_j" by (simp add: field_simps)
  with b0 have lt: "x_i < x_j" by simp
  show ?thesis
    unfolding drawAll_bar [OF i] drawAll_bar [OF assms(2)] b
    using xi(1) xj(1) b0 gap lt by simp
qed

theorem bars_increasing_and_disjoint_witness:
  "(1::nat) < 2 \<and> 2 < length (connections (snapshot rates5))
   \<and> length (connections (snapshot rates5)) \<le> 1048576
   \<and> drawn (window (drawAll (snapshot rates5))) ! (2 * 1)
       = Bar \<lparr>rectSize = (Fin 160, Fin 1100), rectPosition = (Fin 400, Fin 100),
              rectFillColor = Green\<rparr>
   \<and> drawn (window (drawAll (snapshot rates5))) ! (2 * 2)
       = Bar \<lparr>rectSize = (Fin 160, Fin 660), rectPosition = (Fin 720, Fin 540),
              rectFillColor = Green\<rparr>
   \<and> (0::rat) < 160 \<and> (400::rat) < 720 \<and> (400::rat) + 160 \<le> 720"
proof -
  have a: "(1::nat) < 2" by simp
  have l: "(2::nat) < length (connections (snapshot rates5))"
    by (simp add: snapshot_length rates5_def)
  have n: "length (connections (snapshot rates5)) \<le> 1048576"
    by (simp add: snapshot_length rates5_def)
  from bars_increasing_and_disjoint [OF a l n] bar_sample1 bar_sample2 l n
  show ?thesis by auto
qed

section \<open>The frame depends on the snapshot only\<close>

text \<open>
  C7. What \<open>drawAll\<close> draws and displays is determined by the connections (and the
  font): two monitors that agree on them get the same frame, whatever their windows
  held before. \<open>drawAll\<close> leaves the connections as they are, so drawing a second time
  changes nothing.
\<close>

theorem drawAll_depends_on_snapshot_only:
  assumes "connections m' = connections m" and "font m' = font m"
  shows "drawn (window (drawAll m')) = drawn (window (drawAll m))
     \<and> displayed (window (drawAll m')) = displayed (window (drawAll m))
     \<and> drawAll (drawAll m) = drawAll m
     \<and> connections (drawAll m) = connections m"
  using assms by (simp add: drawAll_eq)

theorem drawAll_depends_on_snapshot_only_witness:
  "connections (drawAll (snapshot rates5)) = connections (snapshot rates5)
   \<and> font (drawAll (snapshot rates5)) = font (snapshot rates5)
   \<and> length (drawn (window (snapshot rates5))) = 0
   \<and> length (drawn (window (drawAll (snapshot rates5)))) = 10
   \<and> drawn (window (drawAll (drawAll (snapshot rates5))))
       = drawn (window (drawAll (snapshot rates5)))
   \<and> displayed (window (drawAll (drawAll (snapshot rates5))))
       = displayed (window (drawAll (snapshot rates5)))
   \<and> drawAll (drawAll (snapshot rates5)) = drawAll (snapshot rates5)"
proof -
  have c: "connections (drawAll (snapshot rates5)) = connections (snapshot rates5)"
    by (simp add: drawAll_connections)
  have f: "font (drawAll (snapshot rates5)) = font (snapshot rates5)"
    by (simp add: drawAll_eq)
  have w0: "length (drawn (window (snapshot rates5))) = 0"
    by (simp add: snapshot_def)
  have w1: "length (drawn (window (drawAll (snapshot rates5)))) = 10"
    unfolding drawAll_drawn frameOf_def
    by (simp add: concat_pairs_length drawConn_length snapshot_length rates5_def)
  from c f w0 w1 drawAll_depends_on_snapshot_only [OF c f] show ?thesis by simp
qed

section \<open>Exit status\<close>

text \<open>
  C8. When the font file cannot be loaded, the constructor throws \<open>runtime_error\<close>,
  \<open>main\<close> catches it, writes the line \<open>Error: Font file not found.\<close> to the error
  stream and returns 1. When the font loads and some round of the loop receives a
  \<open>Closed\<close> event, \<open>main\<close> returns 0 and writes nothing to the error stream.
\<close>

theorem main_exit_status:
  "(\<not> loadFromFile fontPath \<longrightarrow>
      BandwidthMonitor_init loadFromFile 5 = Inl (runtime_error ''Font file not found.'')
      \<and> main loadFromFile draw seed batches
          = Some (1, ''Error: Font file not found.'' @ [CHR 0x0A]))
   \<and> (loadFromFile fontPath \<and> (\<exists>evs \<in> set batches. Closed \<in> set evs) \<longrightarrow>
      main loadFromFile draw seed batches = Some (0, []))"
proof (intro conjI impI)
  assume "\<not> loadFromFile fontPath"
  then show "BandwidthMonitor_init loadFromFile 5 = Inl (runtime_error ''Font file not found.'')"
    by (rule init_fails)
  then show "main loadFromFile draw seed batches
          = Some (1, ''Error: Font file not found.'' @ [CHR 0x0A])"
    by (simp add: main_def)
next
  assume a: "loadFromFile fontPath \<and> (\<exists>evs \<in> set batches. Closed \<in> set evs)"
  then obtain m where m: "BandwidthMonitor_init loadFromFile 5 = Inr m"
    using init_succeeds by blast
  from a run_returns obtain s' where "run draw batches (m, seed) = Some s'" by blast
  with m show "main loadFromFile draw seed batches = Some (0, [])"
    by (simp add: main_def)
qed

theorem main_exit_status_witness:
  "main (\<lambda>path. False) alternating 0 [[OtherEvent], [OtherEvent, Closed], []]
     = Some (1, ''Error: Font file not found.'' @ [CHR 0x0A])
   \<and> main (\<lambda>path. True) alternating 0 [[OtherEvent], [OtherEvent, Closed], []] = Some (0, [])
   \<and> run alternating [[OtherEvent], [OtherEvent, Closed], []] (monitor5, 0)
       = Some (tick alternating [OtherEvent, Closed] (tick alternating [OtherEvent] (monitor5, 0)))
   \<and> main (\<lambda>path. True) alternating 0 [[OtherEvent], []] = None"
proof -
  have n: "main (\<lambda>path. True) alternating 0 [[OtherEvent], []] = None"
    by (simp add: main_def init5 tick_isOpen monitor5_def)
  from n run_sample
    main_exit_status [of "\<lambda>path. False" alternating 0 "[[OtherEvent], [OtherEvent, Closed], []]"]
    main_exit_status [of "\<lambda>path. True" alternating 0 "[[OtherEvent], [OtherEvent, Closed], []]"]
  show ?thesis by simp
qed

section \<open>The state after construction\<close>

text \<open>
  C9. Right after construction every connection's rate is 0, which is below \<open>minRate\<close>:
  a monitor with at least one connection does not satisfy the rate invariant before its
  first round, and satisfies it after the first \<open>simulateAll\<close>.
\<close>

theorem rates_zero_after_construction:
  assumes "BandwidthMonitor_init loadFromFile n = Inr m"
  shows "(\<forall>c \<in> set (connections m). getRate c = Fin 0)
       \<and> length (connections m) = nat n
       \<and> \<not> fle minRate (Fin 0)
       \<and> (0 < n \<longrightarrow> \<not> (\<forall>c \<in> set (connections m).
                          fle minRate (getRate c) \<and> fle (getRate c) maxRate))
       \<and> (uniform_real_contract draw minRate maxRate \<longrightarrow>
            (\<forall>c \<in> set (connections (fst (simulateAll draw (m, g)))).
               fle minRate (getRate c) \<and> fle (getRate c) maxRate))"
proof -
  note cs = init_connections [OF assms]
  have zero: "\<forall>c \<in> set (connections m). getRate c = Fin 0"
    by (auto simp: cs getRate_def Connection_init_def)
  have len: "length (connections m) = nat n" by (simp add: cs)
  have out: "\<not> fle minRate (Fin 0)" by (simp add: minRate_def)
  have first: "\<not> (\<forall>c \<in> set (connections m).
                     fle minRate (getRate c) \<and> fle (getRate c) maxRate)" if "0 < n"
  proof -
    from that len have "connections m \<noteq> []" by auto
    then obtain c where "c \<in> set (connections m)" by (cases "connections m") auto
    with zero out show ?thesis by auto
  qed
  have later: "\<forall>c \<in> set (connections (fst (simulateAll draw (m, g)))).
               fle minRate (getRate c) \<and> fle (getRate c) maxRate"
    if "uniform_real_contract draw minRate maxRate"
    unfolding simulateAll_connections by (rule simulateConns_range [OF that])
  from zero len out first later show ?thesis by blast
qed

theorem rates_zero_after_construction_witness:
  "BandwidthMonitor_init (\<lambda>path. True) 5 = Inr monitor5
   \<and> map getRate (connections monitor5) = [Fin 0, Fin 0, Fin 0, Fin 0, Fin 0]
   \<and> list_all (\<lambda>c. getRate c = Fin 0) (connections monitor5)
   \<and> length (connections monitor5) = 5
   \<and> \<not> fle minRate (Fin 0)
   \<and> \<not> list_all (\<lambda>c. fle minRate (getRate c) \<and> fle (getRate c) maxRate) (connections monitor5)
   \<and> list_all (\<lambda>c. fle minRate (getRate c) \<and> fle (getRate c) maxRate)
        (connections (fst (simulateAll alternating (monitor5, 0))))"
proof -
  have r: "map getRate (connections monitor5) = [Fin 0, Fin 0, Fin 0, Fin 0, Fin 0]"
    by (simp add: monitor5_def getRate_def)
  from r init5 alternating_contract
    rates_zero_after_construction [OF init5, of alternating 0]
  show ?thesis by (auto simp: list_all_iff)
qed

section \<open>What a round leaves alone\<close>

text \<open>
  C10. \<open>simulateAll\<close> changes nothing but the stored rates: the identifiers of the
  connections, in their order, and so their number, are as before, and so is every other
  member of the monitor. The identifiers are also the same after a whole round.
\<close>

theorem simulateAll_changes_rates_only:
  "map getId (connections (fst (simulateAll draw (m, g)))) = map getId (connections m)
   \<and> length (connections (fst (simulateAll draw (m, g)))) = length (connections m)
   \<and> fst (simulateAll draw (m, g)) = m\<lparr>connections := connections (fst (simulateAll draw (m, g)))\<rparr>
   \<and> map getId (connections (fst (tick draw evs (m, g)))) = map getId (connections m)"
proof -
  have ids: "map getId = map conn_id" by (simp add: getId_def [abs_def])
  show ?thesis
    by (simp add: ids simulateAll_connections tick_connections simulateConns_ids
        simulateConns_length)
       (simp add: simulateAll_def split: prod.splits)
qed

end
